theory Spec2Isabelle
  imports Complex_Main "HOL-Library.Sublist"
begin

section \<open>Strings and characters\<close>

text \<open>
  A JavaScript string is modelled as a \<^typ>\<open>string\<close>, each \<^typ>\<open>char\<close> standing for one
  code unit below 256 (the Latin-1 range). The character classes of the source are
  read on that range.
\<close>

text \<open>The class \<open>\s\<close> (and the set stripped by \<open>trim\<close>): TAB, LF, VT, FF, CR, SP, NBSP.\<close>

definition is_space :: "char \<Rightarrow> bool" where
  "is_space c = (c = CHR 0x09 \<or> c = CHR 0x0A \<or> c = CHR 0x0B \<or> c = CHR 0x0C
      \<or> c = CHR 0x0D \<or> c = CHR 0x20 \<or> c = CHR 0xA0)"

text \<open>The line terminators, which \<open>.\<close> does not match: LF and CR.\<close>

definition is_line_terminator :: "char \<Rightarrow> bool" where
  "is_line_terminator c = (c = CHR 0x0A \<or> c = CHR 0x0D)"

text \<open>\<open>String.prototype.toLowerCase\<close>, one code unit at a time: A-Z and the Latin-1
  capitals 0xC0-0xDE (0xD7, the multiplication sign, apart) move up by 32.\<close>

definition toLowerCase_char :: "char \<Rightarrow> char" where
  "toLowerCase_char c =
     (let n = (of_char c :: nat)
      in if (65 \<le> n \<and> n \<le> 90) \<or> (192 \<le> n \<and> n \<le> 222 \<and> n \<noteq> 215)
         then char_of (n + 32) else c)"

definition toLowerCase :: "string \<Rightarrow> string" where
  "toLowerCase s = map toLowerCase_char s"

text \<open>\<open>String.prototype.trim\<close>.\<close>

definition trim :: "string \<Rightarrow> string" where
  "trim s = rev (dropWhile is_space (rev (dropWhile is_space s)))"

text \<open>\<open>String.prototype.includes\<close>: the second string occurs somewhere in the first.\<close>

fun includes_str :: "string \<Rightarrow> string \<Rightarrow> bool" where
  "includes_str [] t = (t = [])"
| "includes_str (c # cs) t = (prefix t (c # cs) \<or> includes_str cs t)"

section \<open>Backtracking regular expressions\<close>

text \<open>
  The regular expressions of the source are run by a backtracking matcher in
  continuation-passing style, after the matcher semantics of ECMAScript: a matcher takes
  the continuation that matches the rest of the pattern and the current state, and
  returns the final state of the first successful path, or \<open>None\<close>.
\<close>

record mstate =
  rest :: string
  idx :: nat
  caps :: "nat \<Rightarrow> string option"

datatype regex =
    Chr "char \<Rightarrow> bool"
  | Bol
  | Eol
  | Seq regex regex
  | Alt regex regex
  | Star bool regex
  | Group nat regex
  | Look regex

type_synonym cont = "mstate \<Rightarrow> mstate option"

text \<open>
  The loop of a quantifier \<open>r*\<close> (greedy) or \<open>r*?\<close> (lazy). An iteration that consumes
  nothing is rejected, as in ECMAScript. Every iteration consumes a character, so the
  number of characters left bounds the number of iterations. ECMAScript clears the
  captures of the groups inside \<open>r\<close> before each iteration; the expressions of the
  source quantify no group.
\<close>

fun star_loop :: "(cont \<Rightarrow> cont) \<Rightarrow> bool \<Rightarrow> nat \<Rightarrow> cont \<Rightarrow> cont" where
  "star_loop body greedy 0 k s = k s"
| "star_loop body greedy (Suc n) k s =
     (if greedy
      then (case body (\<lambda>s'. if idx s < idx s' then star_loop body greedy n k s' else None) s of
              Some r \<Rightarrow> Some r
            | None \<Rightarrow> k s)
      else (case k s of
              Some r \<Rightarrow> Some r
            | None \<Rightarrow> body (\<lambda>s'. if idx s < idx s' then star_loop body greedy n k s' else None) s))"

primrec matcher :: "regex \<Rightarrow> cont \<Rightarrow> cont" where
  "matcher (Chr P) k s =
     (case rest s of
        [] \<Rightarrow> None
      | c # cs \<Rightarrow> if P c then k (s\<lparr>rest := cs, idx := Suc (idx s)\<rparr>) else None)"
| "matcher Bol k s = (if idx s = 0 then k s else None)"
| "matcher Eol k s = (if rest s = [] then k s else None)"
| "matcher (Seq a b) k s = matcher a (matcher b k) s"
| "matcher (Alt a b) k s = (case matcher a k s of Some r \<Rightarrow> Some r | None \<Rightarrow> matcher b k s)"
| "matcher (Star greedy a) k s = star_loop (matcher a) greedy (length (rest s)) k s"
| "matcher (Group n a) k s =
     matcher a (\<lambda>s'. k (s'\<lparr>caps := (caps s')(n \<mapsto> take (idx s' - idx s) (rest s))\<rparr>)) s"
| "matcher (Look a) k s =
     (case matcher a Some s of None \<Rightarrow> None | Some s' \<Rightarrow> k (s\<lparr>caps := caps s'\<rparr>))"

text \<open>\<open>r+\<close> and \<open>r+?\<close>: one mandatory iteration, then the loop. A sequence of
  expressions is written as a list; the empty list, which the source does not use, is
  the expression that matches the empty string.\<close>

definition Plus :: "bool \<Rightarrow> regex \<Rightarrow> regex" where
  "Plus greedy r = Seq r (Star greedy r)"

fun seqs :: "regex list \<Rightarrow> regex" where
  "seqs [r] = r"
| "seqs (r # rs) = Seq r (seqs rs)"
| "seqs [] = Star True Bol"

text \<open>
  \<open>RegExp.prototype.exec\<close> without the sticky flag: the match is tried at the given
  position of the text and then at every later one, the end of the text included.
\<close>

fun exec_from :: "regex \<Rightarrow> string \<Rightarrow> nat \<Rightarrow> mstate option" where
  "exec_from r cs i =
     (case matcher r Some \<lparr>rest = cs, idx = i, caps = (\<lambda>_. None)\<rparr> of
        Some s \<Rightarrow> Some s
      | None \<Rightarrow> (case cs of [] \<Rightarrow> None | _ # cs' \<Rightarrow> exec_from r cs' (Suc i)))"

text \<open>The least number of characters a match of a regular expression consumes, and
  whether every match sets the capture group \<open>n\<close>.\<close>

primrec min_len :: "regex \<Rightarrow> nat" where
  "min_len (Chr P) = 1"
| "min_len Bol = 0"
| "min_len Eol = 0"
| "min_len (Seq a b) = min_len a + min_len b"
| "min_len (Alt a b) = min (min_len a) (min_len b)"
| "min_len (Star greedy a) = 0"
| "min_len (Group n a) = min_len a"
| "min_len (Look a) = 0"

primrec sets_group :: "nat \<Rightarrow> regex \<Rightarrow> bool" where
  "sets_group n (Chr P) = False"
| "sets_group n Bol = False"
| "sets_group n Eol = False"
| "sets_group n (Seq a b) = (sets_group n a \<or> sets_group n b)"
| "sets_group n (Alt a b) = (sets_group n a \<and> sets_group n b)"
| "sets_group n (Star greedy a) = False"
| "sets_group n (Group k a) = (n = k \<or> sets_group n a)"
| "sets_group n (Look a) = sets_group n a"

text \<open>A state further on in the same text, with no capture lost.\<close>

definition later :: "mstate \<Rightarrow> mstate \<Rightarrow> bool" where
  "later s s' =
     (idx s \<le> idx s' \<and> idx s' - idx s \<le> length (rest s)
      \<and> rest s' = drop (idx s' - idx s) (rest s)
      \<and> (\<forall>n. caps s n \<noteq> None \<longrightarrow> caps s' n \<noteq> None))"

text \<open>A literal under the \<open>i\<close> flag: both characters are compared after
  canonicalization, which on this range is the upper case of a-z and of 0xE0-0xFE
  (0xF7, the division sign, apart). The classes \<open>\s\<close>, \<open>.\<close> and \<open>[\s\S]\<close> hold no letter
  that has another case, so the flag leaves them as they are.\<close>

definition canonicalize :: "char \<Rightarrow> char" where
  "canonicalize c =
     (let n = (of_char c :: nat)
      in if (97 \<le> n \<and> n \<le> 122) \<or> (224 \<le> n \<and> n \<le> 254 \<and> n \<noteq> 247)
         then char_of (n - 32) else c)"

definition lit_i :: "char \<Rightarrow> regex" where
  "lit_i c = Chr (\<lambda>x. canonicalize x = canonicalize c)"

definition re_space :: regex where
  "re_space = Chr is_space"

definition re_dot :: regex where
  "re_dot = Chr (\<lambda>c. \<not> is_line_terminator c)"

definition re_any :: regex where
  "re_any = Chr (\<lambda>c. True)"

declare exec_from.simps [simp del]

section \<open>Knowledge entries and pattern building\<close>

text \<open>An entry of the knowledge base, \<open>{ q, a, patterns }\<close> in the source.\<close>

record entry =
  entry_q :: string
  entry_a :: string
  entry_patterns :: "string list"

definition STOPWORDS :: "string list" where
  "STOPWORDS =
     [''the'', ''and'', ''for'', ''with'', ''that'', ''this'', ''from'', ''your'', ''have'',
      ''will'', ''into'', ''about'', ''after'', ''before'', ''when'', ''what'', ''how'',
      ''why'', ''who'', ''are'', ''was'', ''were'', ''is'', ''a'', ''an'', ''to'', ''of'',
      ''in'', ''on'', ''at'', ''by'', ''as'', ''it'', ''or'', ''be'', ''we'', ''you'',
      ''our'', ''their'', ''there'', ''any'', ''can'', ''do'']"

text \<open>\<open>replace(/[^a-z0-9\s]/g, " ")\<close>: every character that is not a lower-case letter,
  a digit or whitespace becomes a space.\<close>

definition is_alnum_lower :: "char \<Rightarrow> bool" where
  "is_alnum_lower c =
     (let n = (of_char c :: nat) in (97 \<le> n \<and> n \<le> 122) \<or> (48 \<le> n \<and> n \<le> 57))"

definition strip_punct :: "string \<Rightarrow> string" where
  "strip_punct s = map (\<lambda>c. if is_alnum_lower c \<or> is_space c then c else CHR '' '') s"

text \<open>Consing a character onto the first piece of a split.\<close>

fun cons_first :: "char \<Rightarrow> string list \<Rightarrow> string list" where
  "cons_first c [] = [[c]]"
| "cons_first c (w # wsx) = (c # w) # wsx"

text \<open>\<open>split(/\s+/)\<close>: the pieces between the maximal runs of whitespace; a run at
  either end leaves an empty piece there.\<close>

function split_spaces :: "string \<Rightarrow> string list" where
  "split_spaces [] = [[]]"
| "split_spaces (c # cs) =
     (if is_space c then [] # split_spaces (dropWhile is_space cs)
      else cons_first c (split_spaces cs))"
  by pat_completeness auto
termination
  by (relation "measure length") (auto simp: length_dropWhile_le less_Suc_eq_le)

text \<open>\<open>[...new Set(w)]\<close>: the elements in the order of their first occurrence.\<close>

definition unique_in_order :: "string list \<Rightarrow> string list" where
  "unique_in_order w = foldl (\<lambda>seen x. if x \<in> set seen then seen else seen @ [x]) [] w"

definition buildPatternsFromQuestion :: "string \<Rightarrow> string list" where
  "buildPatternsFromQuestion question =
     (let w = filter (\<lambda>x. length x > 3 \<and> x \<notin> set STOPWORDS)
                (split_spaces (strip_punct (toLowerCase question)))
      in [question] @ take 8 (unique_in_order w))"

definition mk_entry :: "string \<Rightarrow> string \<Rightarrow> entry" where
  "mk_entry question answer =
     \<lparr>entry_q = question, entry_a = answer,
      entry_patterns = buildPatternsFromQuestion question\<rparr>"

section \<open>Segmentation\<close>

text \<open>What can keep a function of the source from returning a value: a \<open>TypeError\<close>
  (a property read on \<open>undefined\<close>) or a loop that never ends.\<close>

datatype fault = TypeError | NoReturn

text \<open>The regular expression of \<open>parseStructuredQA\<close>,
  \<^verbatim>\<open>/(?:^|\n)\s*Q:\s*(.+?)\s*\nA:\s*([\s\S]*?)(?=\nQ:|$)/gi\<close>.\<close>

definition regexQA :: regex where
  "regexQA = seqs
     [Alt Bol (lit_i CHR 0x0A),
      Star True re_space,
      lit_i CHR ''Q'', lit_i CHR '':'',
      Star True re_space,
      Group 1 (Plus False re_dot),
      Star True re_space,
      lit_i CHR 0x0A, lit_i CHR ''A'', lit_i CHR '':'',
      Star True re_space,
      Group 2 (Star False re_any),
      Look (Alt (seqs [lit_i CHR 0x0A, lit_i CHR ''Q'', lit_i CHR '':'']) Eol)]"

text \<open>
  The loop \<open>while ((m = regex.exec(text)) !== null)\<close> with the \<open>g\<close> flag: every search
  starts at \<open>lastIndex\<close>, the end of the match before. \<open>exec\<close> fails when \<open>lastIndex\<close> is
  beyond the text. A match that ends where the search began leaves \<open>lastIndex\<close> as it
  is, and the loop repeats it for ever.
\<close>

function exec_loop :: "string \<Rightarrow> nat \<Rightarrow> fault + entry list" where
  "exec_loop text lastIndex =
     (if length text < lastIndex then Inr []
      else case exec_from regexQA (drop lastIndex text) lastIndex of
        None \<Rightarrow> Inr []
      | Some s \<Rightarrow>
          if idx s \<le> lastIndex then Inl NoReturn
          else (case (caps s 1, caps s 2) of
                  (Some g1, Some g2) \<Rightarrow>
                    (case exec_loop text (idx s) of
                       Inl f \<Rightarrow> Inl f
                     | Inr es \<Rightarrow> Inr (mk_entry (trim g1) (trim g2) # es))
                | _ \<Rightarrow> Inl TypeError))"
  by pat_completeness auto
termination
  by (relation "measure (\<lambda>(text, lastIndex). Suc (length text) - lastIndex)") auto

declare exec_loop.simps [simp del]

definition parseStructuredQA :: "string \<Rightarrow> fault + entry list" where
  "parseStructuredQA text = exec_loop text 0"

text \<open>\<open>split(/\n{2,}/)\<close>: the pieces between the maximal runs of two or more newlines.\<close>

function split_paragraphs :: "string \<Rightarrow> string list" where
  "split_paragraphs [] = [[]]"
| "split_paragraphs (c # cs) =
     (if c = CHR 0x0A \<and> (case cs of [] \<Rightarrow> False | d # _ \<Rightarrow> d = CHR 0x0A)
      then [] # split_paragraphs (dropWhile (\<lambda>d. d = CHR 0x0A) cs)
      else cons_first c (split_paragraphs cs))"
  by pat_completeness auto
termination
  by (relation "measure length") (auto simp: length_dropWhile_le less_Suc_eq_le)

text \<open>The regular expression \<^verbatim>\<open>/(.+?[\.\?!])\s/\<close> of \<open>parseUnstructured\<close>.\<close>

definition regexFirst :: regex where
  "regexFirst = seqs
     [Group 1 (seqs [Plus False re_dot,
                     Chr (\<lambda>c. c = CHR ''.'' \<or> c = CHR ''?'' \<or> c = CHR ''!'')]),
      re_space]"

text \<open>The ellipsis U+2026 that closes a shortened label lies outside the range of
  \<^typ>\<open>char\<close>. It is represented by the code 0x85, which like U+2026 is no letter, digit,
  whitespace or line terminator and has no other case.\<close>

definition ellipsis :: string where
  "ellipsis = [CHR 0x85]"

text \<open>The body of the \<open>map\<close> of \<open>parseUnstructured\<close>; \<open>(p.match(re) || [null,p])[1]\<close> is
  the first group of the match, or the paragraph when nothing matches.\<close>

definition paragraph_entry :: "string \<Rightarrow> fault + entry" where
  "paragraph_entry p =
     (case (case exec_from regexFirst p 0 of
              None \<Rightarrow> Some p
            | Some s \<Rightarrow> caps s 1) of
        None \<Rightarrow> Inl TypeError
      | Some first \<Rightarrow>
          (let question = (if length first > 120 then take 117 first @ ellipsis else first)
           in Inr \<lparr>entry_q = question, entry_a = p,
                   entry_patterns = buildPatternsFromQuestion question\<rparr>))"

text \<open>\<open>Array.prototype.map\<close> with a callback that may throw: the first fault ends it.\<close>

fun map_fault :: "('a \<Rightarrow> fault + 'b) \<Rightarrow> 'a list \<Rightarrow> fault + 'b list" where
  "map_fault f [] = Inr []"
| "map_fault f (x # xs) =
     (case f x of
        Inl e \<Rightarrow> Inl e
      | Inr y \<Rightarrow> (case map_fault f xs of Inl e \<Rightarrow> Inl e | Inr ys \<Rightarrow> Inr (y # ys)))"

text \<open>\<open>text.split(/\n{2,}/).map(p => p.trim()).filter(Boolean)\<close>.\<close>

definition paragraphs :: "string \<Rightarrow> string list" where
  "paragraphs text = filter (\<lambda>p. p \<noteq> []) (map trim (split_paragraphs text))"

definition parseUnstructured :: "string \<Rightarrow> fault + entry list" where
  "parseUnstructured text = map_fault paragraph_entry (paragraphs text)"

section \<open>Loading the knowledge base\<close>

text \<open>What reading and extracting the PDF can give: no file, an error raised by the
  extraction, or the extracted text (\<open>data.text || ""\<close>).\<close>

datatype pdf = NoFile | ExtractionError | Extracted string

text \<open>\<open>loadPdfKnowledge\<close>; the \<open>catch\<close> turns every exception into the empty base.\<close>

definition loadPdfKnowledge :: "pdf \<Rightarrow> fault + entry list" where
  "loadPdfKnowledge source =
     (case source of
        NoFile \<Rightarrow> Inr []
      | ExtractionError \<Rightarrow> Inr []
      | Extracted txt \<Rightarrow>
          (let text = trim txt
           in if text = [] then Inr []
              else (case parseStructuredQA text of
                      Inl TypeError \<Rightarrow> Inr []
                    | Inl NoReturn \<Rightarrow> Inl NoReturn
                    | Inr structured \<Rightarrow>
                        if structured \<noteq> [] then Inr structured
                        else (case parseUnstructured text of
                                Inl TypeError \<Rightarrow> Inr []
                              | Inl NoReturn \<Rightarrow> Inl NoReturn
                              | Inr unstructured \<Rightarrow> Inr (take 300 unstructured)))))"

text \<open>The handler of \<open>fs.watchFile\<close>: \<open>KB = await loadPdfKnowledge()\<close>. The state is the
  global \<open>KB\<close>; a load that does not return leaves no new state.\<close>

definition reload :: "entry list \<Rightarrow> pdf \<Rightarrow> fault + entry list" where
  "reload KB source = loadPdfKnowledge source"

section \<open>Matching\<close>

text \<open>\<open>replace(/\s+/g, " ")\<close>: every maximal run of whitespace becomes one space.\<close>

function collapse_spaces :: "string \<Rightarrow> string" where
  "collapse_spaces [] = []"
| "collapse_spaces (c # cs) =
     (if is_space c then CHR '' '' # collapse_spaces (dropWhile is_space cs)
      else c # collapse_spaces cs)"
  by pat_completeness auto
termination
  by (relation "measure length") (auto simp: length_dropWhile_le less_Suc_eq_le)

definition normalize_str :: "string \<Rightarrow> string" where
  "normalize_str str = trim (collapse_spaces (strip_punct (toLowerCase str)))"

text \<open>\<open>split(" ")\<close>: the pieces between the single spaces.\<close>

fun split_on :: "char \<Rightarrow> string \<Rightarrow> string list" where
  "split_on sep [] = [[]]"
| "split_on sep (c # cs) =
     (if c = sep then [] # split_on sep cs else cons_first c (split_on sep cs))"

text \<open>
  The numbers of the matcher: a quotient of two counts, \<open>NaN\<close> for \<open>0 / 0\<close> and
  \<open>Infinity\<close> for a positive count over 0. A finite double is represented by the
  rational it rounds; the quotients of two counts below \<open>2 ^ 26\<close> are told apart, and
  from the threshold 0.35, by their doubles as by their exact values.
\<close>

datatype jsnum = NaN | Infinity | Num rat

definition js_div :: "nat \<Rightarrow> nat \<Rightarrow> jsnum" where
  "js_div h n = (if n = 0 then (if h = 0 then NaN else Infinity) else Num (of_nat h / of_nat n))"

text \<open>\<open>Math.max\<close> of two numbers: \<open>NaN\<close> when either is.\<close>

fun js_max :: "jsnum \<Rightarrow> jsnum \<Rightarrow> jsnum" where
  "js_max NaN y = NaN"
| "js_max x NaN = NaN"
| "js_max Infinity y = Infinity"
| "js_max x Infinity = Infinity"
| "js_max (Num x) (Num y) = Num (max x y)"

text \<open>The comparison \<open>x > y\<close>: false when either is \<open>NaN\<close>.\<close>

fun js_gt :: "jsnum \<Rightarrow> jsnum \<Rightarrow> bool" where
  "js_gt NaN y = False"
| "js_gt x NaN = False"
| "js_gt x Infinity = False"
| "js_gt Infinity (Num y) = True"
| "js_gt (Num x) (Num y) = (y < x)"

definition pattern_words :: "string \<Rightarrow> string list" where
  "pattern_words p = filter (\<lambda>w. w \<noteq> []) (split_on CHR '' '' (normalize_str p))"

definition hits :: "string \<Rightarrow> string list \<Rightarrow> nat" where
  "hits u words = length (filter (\<lambda>w. includes_str u ('' '' @ w @ '' '')) words)"

text \<open>The quotient \<open>hits / words.length\<close> of one pattern against the padded text \<open>u\<close>.\<close>

definition coverage :: "string \<Rightarrow> string \<Rightarrow> jsnum" where
  "coverage u p = (let words = pattern_words p in js_div (hits u words) (length words))"

definition scoreMatch :: "string \<Rightarrow> string list \<Rightarrow> jsnum" where
  "scoreMatch user pats =
     (let u = '' '' @ normalize_str user @ '' ''
      in foldl (\<lambda>best p. js_max best (coverage u p)) (Num 0) pats)"

text \<open>The variable \<open>best = { i, s }\<close> of \<open>getAnswer\<close>.\<close>

record best =
  best_i :: int
  best_s :: jsnum

text \<open>The \<open>for\<close> loop of \<open>getAnswer\<close>, from index \<open>i\<close> on.\<close>

fun scan :: "string \<Rightarrow> entry list \<Rightarrow> int \<Rightarrow> best \<Rightarrow> best" where
  "scan txt [] i b = b"
| "scan txt (e # es) i b =
     (let s = scoreMatch txt (entry_patterns e)
      in scan txt es (i + 1) (if js_gt s (best_s b) then \<lparr>best_i = i, best_s = s\<rparr> else b))"

text \<open>The result of \<open>getAnswer\<close>: the answer of the matched entry with the score that
  the \<open>meta\<close> text shows as a percentage, or the request to rephrase.\<close>

datatype reply = Answer string jsnum | Rephrase

text \<open>\<open>FAQ[i]\<close>: \<open>undefined\<close> outside the array.\<close>

definition at_index :: "'a list \<Rightarrow> int \<Rightarrow> 'a option" where
  "at_index xs i = (if 0 \<le> i \<and> i < int (length xs) then Some (xs ! nat i) else None)"

definition getAnswer :: "entry list \<Rightarrow> string \<Rightarrow> fault + reply" where
  "getAnswer FAQ txt =
     (let b = scan txt FAQ 0 \<lparr>best_i = - 1, best_s = Num 0\<rparr>
      in if js_gt (best_s b) (Num (35 / 100))
         then (case at_index FAQ (best_i b) of
                 None \<Rightarrow> Inl TypeError
               | Some item \<Rightarrow> Inr (Answer (entry_a item) (best_s b)))
         else Inr Rephrase)"

section \<open>Notions of the statements and proofs\<close>

text \<open>A score that is a number between 0 and 1, or \<open>NaN\<close>.\<close>

definition unit_or_nan :: "jsnum \<Rightarrow> bool" where
  "unit_or_nan x = (case x of NaN \<Rightarrow> True | Infinity \<Rightarrow> False | Num v \<Rightarrow> 0 \<le> v \<and> v \<le> 1)"

text \<open>What the loop of \<open>getAnswer\<close> keeps true of \<open>best\<close> after the entries \<open>seen\<close>: its
  score is a number no entry seen exceeds, and either no entry was taken and the score is
  0, or the index is that of the first entry seen that reaches the score.\<close>

definition tracks :: "string \<Rightarrow> entry list \<Rightarrow> best \<Rightarrow> bool" where
  "tracks user seen b =
     (\<exists>v. best_s b = Num v \<and> 0 \<le> v
        \<and> (\<forall>j<length seen. \<forall>w. scoreMatch user (entry_patterns (seen ! j)) = Num w \<longrightarrow> w \<le> v)
        \<and> (if best_i b = - 1 then v = 0
            else 0 \<le> best_i b \<and> nat (best_i b) < length seen \<and> 0 < v
              \<and> scoreMatch user (entry_patterns (seen ! nat (best_i b))) = Num v
              \<and> (\<forall>j<nat (best_i b). \<forall>w.
                    scoreMatch user (entry_patterns (seen ! j)) = Num w \<longrightarrow> w < v)))"

text \<open>A marker somewhere in a text: the letter, in either case, and a colon.\<close>

fun has_marker :: "char \<Rightarrow> string \<Rightarrow> bool" where
  "has_marker mk (x # y # ys) =
     ((canonicalize x = canonicalize mk \<and> y = CHR '':'') \<or> has_marker mk (y # ys))"
| "has_marker mk [x] = False"
| "has_marker mk [] = False"

text \<open>Where the answer of a block ends: at the end of the text, or before a newline
  followed by the question marker.\<close>

fun block_end :: "string \<Rightarrow> bool" where
  "block_end [] = True"
| "block_end (x # y # z # r) =
     (x = CHR 0x0A \<and> canonicalize y = canonicalize CHR ''Q'' \<and> z = CHR '':'')"
| "block_end _ = False"

text \<open>A text with no line terminator, and a text of whitespace only.\<close>

definition single_line :: "string \<Rightarrow> bool" where
  "single_line s = list_all (\<lambda>c. \<not> is_line_terminator c) s"

definition blank :: "string \<Rightarrow> bool" where
  "blank s = list_all is_space s"

text \<open>The document built from a sequence of question and answer texts: the blocks
  \<open>Q: question\<close>, newline, \<open>A: answer\<close>, joined by newlines.\<close>

fun build_doc :: "(string \<times> string) list \<Rightarrow> string" where
  "build_doc [] = []"
| "build_doc [(q, a)] = ''Q: '' @ q @ ''\<newline>A: '' @ a"
| "build_doc ((q, a) # b # bs) =
     ''Q: '' @ q @ ''\<newline>A: '' @ a @ ''\<newline>'' @ build_doc (b # bs)"

text \<open>A matcher state written out, and the parts of \<open>regexQA\<close> as continuations: the
  lookahead that ends an answer, the answer after its marker, the answer marker, the
  question after its marker, and the question marker.\<close>

abbreviation st :: "string \<Rightarrow> nat \<Rightarrow> (nat \<Rightarrow> string option) \<Rightarrow> mstate" where
  "st r i f \<equiv> \<lparr>rest = r, idx = i, caps = f\<rparr>"

abbreviation look_next :: regex where
  "look_next \<equiv> Look (Alt (Seq (lit_i CHR 0x0A) (Seq (lit_i CHR ''Q'') (lit_i CHR '':''))) Eol)"

abbreviation answer_tail :: "cont \<Rightarrow> cont" where
  "answer_tail k \<equiv>
     matcher (Star True re_space) (matcher (Group 2 (Star False re_any)) (matcher look_next k))"

abbreviation marker_A :: "cont \<Rightarrow> cont" where
  "marker_A k \<equiv>
     matcher (Star True re_space)
       (matcher (lit_i CHR 0x0A) (matcher (lit_i CHR ''A'') (matcher (lit_i CHR '':'') k)))"

abbreviation question_tail :: "cont \<Rightarrow> cont" where
  "question_tail k \<equiv> matcher (Group 1 (Plus False re_dot)) (marker_A (answer_tail k))"

abbreviation marker_Q :: "cont \<Rightarrow> cont" where
  "marker_Q k \<equiv>
     matcher (lit_i CHR ''Q'')
       (matcher (lit_i CHR '':'') (matcher (Star True re_space) (question_tail k)))"

section \<open>The matcher moves forward\<close>

text \<open>
  A match that succeeds has called its continuation on a later state: further on in the
  same text by at least the least length of the expression, with every capture kept and
  the groups of the expression set. So a match of \<open>regexQA\<close> is never empty and sets both
  groups: the loop of \<open>parseStructuredQA\<close> ends and reads no undefined capture.
\<close>

lemma later_refl: "later s s"
  by (simp add: later_def)

lemma later_trans: "later s t \<Longrightarrow> later t u \<Longrightarrow> later s u"
  by (auto simp: later_def)

lemma later_idx: "later s t \<Longrightarrow> idx s \<le> idx t"
  by (simp add: later_def)

lemma later_caps: "later s t \<Longrightarrow> caps s n \<noteq> None \<Longrightarrow> caps t n \<noteq> None"
  by (simp add: later_def)

lemma star_loop_reach:
  assumes body: "\<And>k s x. body k s = Some x \<Longrightarrow> \<exists>s'. k s' = Some x \<and> later s s'"
  shows "star_loop body g n k s = Some x \<Longrightarrow> \<exists>s'. k s' = Some x \<and> later s s'"
proof (induction n arbitrary: s)
  case 0
  then show ?case using later_refl by auto
next
  case (Suc n)
  let ?again = "body (\<lambda>s'. if idx s < idx s' then star_loop body g n k s' else None) s"
  from Suc.prems have "k s = Some x \<or> ?again = Some x"
    by (auto split: if_splits option.splits)
  then show ?case
  proof
    assume "k s = Some x"
    then show ?thesis using later_refl by auto
  next
    assume "?again = Some x"
    from body[OF this] obtain s1 where
      s1: "(if idx s < idx s1 then star_loop body g n k s1 else None) = Some x" "later s s1"
      by blast
    then have "star_loop body g n k s1 = Some x" by (auto split: if_splits)
    from Suc.IH[OF this] obtain s' where "k s' = Some x" "later s1 s'" by blast
    with s1(2) show ?thesis using later_trans by blast
  qed
qed

lemma matcher_reach:
  "matcher r k s = Some x \<Longrightarrow>
   \<exists>s'. k s' = Some x \<and> later s s' \<and> idx s + min_len r \<le> idx s'
        \<and> (\<forall>n. sets_group n r \<longrightarrow> caps s' n \<noteq> None)"
proof (induction r arbitrary: k s x)
  case (Chr P)
  then obtain c cs where r: "rest s = c # cs" "P c"
    and k: "k (s\<lparr>rest := cs, idx := Suc (idx s)\<rparr>) = Some x"
    by (auto split: list.splits if_splits)
  have "later s (s\<lparr>rest := cs, idx := Suc (idx s)\<rparr>)"
    using r by (simp add: later_def)
  with k show ?case by (intro exI[of _ "s\<lparr>rest := cs, idx := Suc (idx s)\<rparr>"]) simp
next
  case Bol
  then show ?case using later_refl by (auto split: if_splits)
next
  case Eol
  then show ?case using later_refl by (auto split: if_splits)
next
  case (Seq a b)
  from Seq.prems have "matcher a (matcher b k) s = Some x" by simp
  from Seq.IH(1)[OF this] obtain s1 where s1: "matcher b k s1 = Some x" "later s s1"
    "idx s + min_len a \<le> idx s1" "\<forall>n. sets_group n a \<longrightarrow> caps s1 n \<noteq> None"
    by blast
  from Seq.IH(2)[OF s1(1)] obtain s2 where s2: "k s2 = Some x" "later s1 s2"
    "idx s1 + min_len b \<le> idx s2" "\<forall>n. sets_group n b \<longrightarrow> caps s2 n \<noteq> None"
    by blast
  have "later s s2" using s1(2) s2(2) by (rule later_trans)
  moreover have "idx s + min_len (Seq a b) \<le> idx s2" using s1(3) s2(3) by simp
  moreover have "\<forall>n. sets_group n (Seq a b) \<longrightarrow> caps s2 n \<noteq> None"
    using s1(4) s2(4) later_caps[OF s2(2)] by auto
  ultimately show ?case using s2(1) by blast
next
  case (Alt a b)
  from Alt.prems have "matcher a k s = Some x \<or> matcher b k s = Some x"
    by (auto split: option.splits)
  then show ?case
  proof
    assume "matcher a k s = Some x"
    from Alt.IH(1)[OF this] show ?thesis by (auto intro: exI)
  next
    assume "matcher b k s = Some x"
    from Alt.IH(2)[OF this] show ?thesis by (auto intro: exI)
  qed
next
  case (Star g a)
  have body: "\<And>k s x. matcher a k s = Some x \<Longrightarrow> \<exists>s'. k s' = Some x \<and> later s s'"
    using Star.IH by blast
  from Star.prems have "star_loop (matcher a) g (length (rest s)) k s = Some x" by simp
  from star_loop_reach[where body = "matcher a", OF body this]
  obtain s' where "k s' = Some x" "later s s'" by blast
  then show ?case using later_idx[of s s'] by (intro exI[of _ s']) simp
next
  case (Group n a)
  let ?k = "\<lambda>s'. k (s'\<lparr>caps := (caps s')(n \<mapsto> take (idx s' - idx s) (rest s))\<rparr>)"
  from Group.prems have "matcher a ?k s = Some x" by simp
  from Group.IH[OF this] obtain s1 where s1: "?k s1 = Some x" "later s s1"
    "idx s + min_len a \<le> idx s1" "\<forall>m. sets_group m a \<longrightarrow> caps s1 m \<noteq> None"
    by blast
  let ?s' = "s1\<lparr>caps := (caps s1)(n \<mapsto> take (idx s1 - idx s) (rest s))\<rparr>"
  have "later s ?s'" using s1(2) by (simp add: later_def)
  moreover have "\<forall>m. sets_group m (Group n a) \<longrightarrow> caps ?s' m \<noteq> None"
    using s1(4) by simp
  ultimately show ?case using s1(1,3) by (intro exI[of _ ?s']) simp
next
  case (Look a)
  from Look.prems obtain s1 where m: "matcher a Some s = Some s1"
    and k: "k (s\<lparr>caps := caps s1\<rparr>) = Some x"
    by (auto split: option.splits)
  from Look.IH[OF m] have s1: "later s s1" "\<forall>n. sets_group n a \<longrightarrow> caps s1 n \<noteq> None"
    by auto
  have "later s (s\<lparr>caps := caps s1\<rparr>)" using s1(1) by (simp add: later_def)
  then show ?case using k s1(2) by (intro exI[of _ "s\<lparr>caps := caps s1\<rparr>"]) simp
qed

lemma exec_from_reach:
  "exec_from r cs i = Some x \<Longrightarrow>
   i + min_len r \<le> idx x \<and> idx x \<le> i + length cs \<and> rest x = drop (idx x - i) cs
   \<and> (\<forall>n. sets_group n r \<longrightarrow> caps x n \<noteq> None)"
proof (induction r cs i rule: exec_from.induct)
  case (1 r cs i)
  let ?s0 = "\<lparr>rest = cs, idx = i, caps = (\<lambda>_. None)\<rparr>"
  show ?case
  proof (cases "matcher r Some ?s0")
    case (Some s)
    with "1.prems" have "s = x" by (simp add: exec_from.simps[of r cs i])
    with Some have "matcher r Some ?s0 = Some x" by simp
    from matcher_reach[OF this] show ?thesis by (auto simp: later_def)
  next
    case None
    with "1.prems" have "(case cs of [] \<Rightarrow> None | _ # cs' \<Rightarrow> exec_from r cs' (Suc i)) = Some x"
      by (simp add: exec_from.simps[of r cs i])
    then obtain c cs' where cs: "cs = c # cs'" and e: "exec_from r cs' (Suc i) = Some x"
      by (cases cs) auto
    from "1.IH"[OF None cs e] have *: "Suc i + min_len r \<le> idx x" "idx x \<le> Suc i + length cs'"
      "rest x = drop (idx x - Suc i) cs'" "\<forall>n. sets_group n r \<longrightarrow> caps x n \<noteq> None"
      by auto
    from *(1) have "idx x - i = Suc (idx x - Suc i)" by arith
    then show ?thesis using * cs by simp
  qed
qed

text \<open>
  The fuel of the quantifier loop is no restriction: a matcher looks at its continuation
  on later states only, so any fuel that is at least the number of characters left gives
  the result of the quantifier.
\<close>

lemma star_loop_cong:
  assumes body: "\<And>k1 k2 s. (\<And>s'. later s s' \<Longrightarrow> k1 s' = k2 s') \<Longrightarrow> body k1 s = body k2 s"
  shows "(\<And>s'. later s s' \<Longrightarrow> k1 s' = k2 s') \<Longrightarrow>
     star_loop body g n k1 s = star_loop body g n k2 s"
proof (induction n arbitrary: s)
  case 0
  then show ?case using later_refl by simp
next
  case (Suc n)
  have k: "k1 s = k2 s" using Suc.prems later_refl by blast
  have eq: "body (\<lambda>s'. if idx s < idx s' then star_loop body g n k1 s' else None) s
      = body (\<lambda>s'. if idx s < idx s' then star_loop body g n k2 s' else None) s"
  proof (rule body)
    fix s' assume l: "later s s'"
    have "star_loop body g n k1 s' = star_loop body g n k2 s'"
      using Suc.prems later_trans[OF l] by (intro Suc.IH) blast
    then show "(if idx s < idx s' then star_loop body g n k1 s' else None)
        = (if idx s < idx s' then star_loop body g n k2 s' else None)" by simp
  qed
  show ?case unfolding star_loop.simps eq k by (rule refl)
qed

lemma matcher_cong:
  "(\<And>s'. later s s' \<Longrightarrow> k1 s' = k2 s') \<Longrightarrow> matcher r k1 s = matcher r k2 s"
proof (induction r arbitrary: k1 k2 s)
  case (Chr P)
  show ?case
  proof (cases "rest s")
    case Nil
    then show ?thesis by simp
  next
    case (Cons c cs)
    then have "later s (s\<lparr>rest := cs, idx := Suc (idx s)\<rparr>)" by (simp add: later_def)
    with Chr Cons show ?thesis by simp
  qed
next
  case Bol
  then show ?case using later_refl by simp
next
  case Eol
  then show ?case using later_refl by simp
next
  case (Seq a b)
  have "matcher a (matcher b k1) s = matcher a (matcher b k2) s"
  proof (rule Seq.IH(1))
    fix s' assume l: "later s s'"
    show "matcher b k1 s' = matcher b k2 s'"
      using Seq.prems later_trans[OF l] by (intro Seq.IH(2)) blast
  qed
  then show ?case by simp
next
  case (Alt a b)
  have a: "matcher a k1 s = matcher a k2 s" using Alt.prems by (intro Alt.IH(1))
  have b: "matcher b k1 s = matcher b k2 s" using Alt.prems by (intro Alt.IH(2))
  show ?case unfolding matcher.simps a b by (rule refl)
next
  case (Star g a)
  have "star_loop (matcher a) g (length (rest s)) k1 s
      = star_loop (matcher a) g (length (rest s)) k2 s"
    using Star.IH Star.prems by (intro star_loop_cong) blast+
  then show ?case by simp
next
  case (Group n a)
  have "matcher a (\<lambda>s'. k1 (s'\<lparr>caps := (caps s')(n \<mapsto> take (idx s' - idx s) (rest s))\<rparr>)) s
      = matcher a (\<lambda>s'. k2 (s'\<lparr>caps := (caps s')(n \<mapsto> take (idx s' - idx s) (rest s))\<rparr>)) s"
  proof (rule Group.IH)
    fix s' assume "later s s'"
    then have "later s (s'\<lparr>caps := (caps s')(n \<mapsto> take (idx s' - idx s) (rest s))\<rparr>)"
      by (simp add: later_def)
    then show "k1 (s'\<lparr>caps := (caps s')(n \<mapsto> take (idx s' - idx s) (rest s))\<rparr>)
        = k2 (s'\<lparr>caps := (caps s')(n \<mapsto> take (idx s' - idx s) (rest s))\<rparr>)"
      by (rule Group.prems)
  qed
  then show ?case by simp
next
  case (Look a)
  show ?case
  proof (cases "matcher a Some s")
    case None
    then show ?thesis by simp
  next
    case (Some s1)
    from matcher_reach[OF Some] have "later s s1" by auto
    then have "later s (s\<lparr>caps := caps s1\<rparr>)" by (simp add: later_def)
    with Look.prems Some show ?thesis by simp
  qed
qed

lemma matcher_no_progress:
  assumes "\<And>s'. later s s' \<Longrightarrow> k s' = None"
  shows "matcher r k s = None"
proof (cases "matcher r k s")
  case None
  then show ?thesis .
next
  case (Some x)
  from matcher_reach[OF Some] assms show ?thesis by auto
qed

lemma star_loop_fuel:
  "length (rest s) \<le> n \<Longrightarrow>
   star_loop (matcher a) g n k s = star_loop (matcher a) g (length (rest s)) k s"
proof (induction n arbitrary: s rule: less_induct)
  case (less n)
  show ?case
  proof (cases n)
    case 0
    with less.prems show ?thesis by simp
  next
    case n: (Suc n')
    let ?c = "\<lambda>m s'. if idx s < idx s' then star_loop (matcher a) g m k s' else None"
    show ?thesis
    proof (cases "length (rest s)")
      case 0
      have none: "matcher a (?c n') s = None"
      proof (rule matcher_no_progress)
        fix s' assume "later s s'"
        then have "\<not> idx s < idx s'" using 0 by (simp add: later_def)
        then show "?c n' s' = None" by simp
      qed
      show ?thesis unfolding n 0 star_loop.simps none by (cases g; cases "k s") simp_all
    next
      case (Suc m)
      have mn: "m \<le> n'" using Suc less.prems n by simp
      have eq: "matcher a (?c n') s = matcher a (?c m) s"
      proof (rule matcher_cong)
        fix s' assume l: "later s s'"
        show "?c n' s' = ?c m s'"
        proof (cases "idx s < idx s'")
          case True
          with l Suc have len: "length (rest s') \<le> m" by (simp add: later_def)
          have "star_loop (matcher a) g n' k s' = star_loop (matcher a) g (length (rest s')) k s'"
            using len mn n by (intro less.IH) simp_all
          moreover have "star_loop (matcher a) g m k s' = star_loop (matcher a) g (length (rest s')) k s'"
            using len mn n by (intro less.IH) simp_all
          ultimately show ?thesis by simp
        next
          case False
          then show ?thesis by simp
        qed
      qed
      show ?thesis unfolding n Suc star_loop.simps eq by (rule refl)
    qed
  qed
qed

lemma star_fuel_irrelevant:
  "length (rest s) \<le> n \<Longrightarrow> star_loop (matcher a) g n k s = matcher (Star g a) k s"
  unfolding matcher.simps by (rule star_loop_fuel)

lemma regexQA_facts:
  "min_len regexQA = 6" "sets_group 1 regexQA" "sets_group 2 regexQA"
  by (simp_all add: regexQA_def Plus_def lit_i_def re_space_def re_dot_def re_any_def)

lemma regexFirst_facts:
  "min_len regexFirst = 3" "sets_group 1 regexFirst"
  by (simp_all add: regexFirst_def Plus_def re_space_def re_dot_def)

lemma exec_loop_total: "\<exists>es. exec_loop doc i = Inr es"
proof (induction doc i rule: exec_loop.induct)
  case (1 doc lastIndex)
  show ?case
  proof (cases "length doc < lastIndex")
    case True
    then show ?thesis by (simp add: exec_loop.simps)
  next
    case False
    show ?thesis
    proof (cases "exec_from regexQA (drop lastIndex doc) lastIndex")
      case None
      with False show ?thesis by (simp add: exec_loop.simps)
    next
      case (Some s)
      from exec_from_reach[OF Some]
      have r: "lastIndex + min_len regexQA \<le> idx s"
        "\<forall>n. sets_group n regexQA \<longrightarrow> caps s n \<noteq> None"
        by blast+
      from r(2) regexQA_facts(2,3) obtain g1 g2 where "caps s 1 = Some g1" "caps s 2 = Some g2"
        by blast
      with r(1) regexQA_facts(1)
      have s: "lastIndex + 6 \<le> idx s" "caps s 1 = Some g1" "caps s 2 = Some g2"
        by simp_all
      then have ni: "\<not> idx s \<le> lastIndex" by simp
      from "1.IH"[OF False Some ni refl s(2) s(3)]
      obtain es where "exec_loop doc (idx s) = Inr es" by blast
      with False Some ni s show ?thesis by (simp add: exec_loop.simps[of doc lastIndex])
    qed
  qed
qed

lemma parseStructuredQA_total: "\<exists>es. parseStructuredQA doc = Inr es"
  by (simp add: parseStructuredQA_def exec_loop_total)

lemma exec_from_start:
  "exec_from r cs i = Some x \<Longrightarrow>
   \<exists>j\<le>length cs. matcher r Some \<lparr>rest = drop j cs, idx = i + j, caps = (\<lambda>_. None)\<rparr> = Some x"
proof (induction r cs i rule: exec_from.induct)
  case (1 r cs i)
  show ?case
  proof (cases "matcher r Some \<lparr>rest = cs, idx = i, caps = (\<lambda>_. None)\<rparr>")
    case (Some s)
    with "1.prems" have "s = x" by (simp add: exec_from.simps[of r cs i])
    with Some show ?thesis by (intro exI[of _ 0]) simp
  next
    case None
    with "1.prems" have "(case cs of [] \<Rightarrow> None | _ # cs' \<Rightarrow> exec_from r cs' (Suc i)) = Some x"
      by (simp add: exec_from.simps[of r cs i])
    then obtain c cs' where cs: "cs = c # cs'" and e: "exec_from r cs' (Suc i) = Some x"
      by (cases cs) auto
    from "1.IH"[OF None cs e] obtain j where "j \<le> length cs'"
      "matcher r Some \<lparr>rest = drop j cs', idx = Suc i + j, caps = (\<lambda>_. None)\<rparr> = Some x"
      by blast
    then show ?thesis using cs by (intro exI[of _ "Suc j"]) simp
  qed
qed

lemma regexFirst_capture:
  assumes "exec_from regexFirst p 0 = Some x"
  shows "\<exists>g. caps x 1 = Some g \<and> g \<noteq> []"
proof -
  from exec_from_start[OF assms] obtain j where
    m: "matcher regexFirst Some \<lparr>rest = drop j p, idx = j, caps = (\<lambda>_. None)\<rparr> = Some x"
    by auto
  let ?s0 = "\<lparr>rest = drop j p, idx = j, caps = (\<lambda>_. None)\<rparr>"
  let ?R = "seqs [Plus False re_dot, Chr (\<lambda>c. c = CHR ''.'' \<or> c = CHR ''?'' \<or> c = CHR ''!'')]"
  let ?k = "\<lambda>s'. matcher re_space Some (s'\<lparr>caps := (caps s')(1 \<mapsto> take (idx s' - idx ?s0) (rest ?s0))\<rparr>)"
  from m have "matcher ?R ?k ?s0 = Some x"
    by (simp add: regexFirst_def)
  from matcher_reach[OF this] obtain s' where s': "?k s' = Some x" "later ?s0 s'"
    "idx ?s0 + min_len ?R \<le> idx s'" by blast
  have ml: "min_len ?R = 2" by (simp add: Plus_def re_dot_def)
  from s'(1) have "caps x 1 = Some (take (idx s' - idx ?s0) (rest ?s0))"
    by (auto simp: re_space_def split: list.splits if_splits)
  moreover have "length (take (idx s' - idx ?s0) (rest ?s0)) \<ge> 2"
    using s'(2,3) ml by (simp add: later_def)
  ultimately show ?thesis by auto
qed

lemma paragraph_entry_ok:
  assumes "p \<noteq> []"
  shows "\<exists>e. paragraph_entry p = Inr e \<and> entry_q e \<noteq> [] \<and> entry_a e = p"
proof (cases "exec_from regexFirst p 0")
  case None
  then show ?thesis using assms by (simp add: paragraph_entry_def Let_def ellipsis_def)
next
  case (Some x)
  from regexFirst_capture[OF Some] obtain g where "caps x 1 = Some g" "g \<noteq> []" by blast
  with Some show ?thesis by (simp add: paragraph_entry_def Let_def ellipsis_def)
qed

lemma map_fault_ok:
  assumes "\<And>x. x \<in> set xs \<Longrightarrow> \<exists>y. f x = Inr y \<and> P y \<and> g y = x"
  shows "\<exists>ys. map_fault f xs = Inr ys \<and> (\<forall>y\<in>set ys. P y) \<and> map g ys = xs"
  using assms
proof (induction xs)
  case Nil
  then show ?case by simp
next
  case (Cons x xs)
  from Cons.prems[of x] obtain y where y: "f x = Inr y" "P y" "g y = x" by auto
  from Cons.IH Cons.prems obtain ys where "map_fault f xs = Inr ys" "\<forall>y\<in>set ys. P y" "map g ys = xs"
    by auto
  with y show ?case by simp
qed

lemma paragraphs_nonempty: "p \<in> set (paragraphs doc) \<Longrightarrow> p \<noteq> []"
  by (simp add: paragraphs_def)

lemma parseUnstructured_ok:
  "\<exists>es. parseUnstructured doc = Inr es \<and> (\<forall>e\<in>set es. entry_q e \<noteq> [] \<and> entry_a e \<noteq> [])
      \<and> map entry_a es = paragraphs doc"
proof -
  have "\<exists>ys. map_fault paragraph_entry (paragraphs doc) = Inr ys
      \<and> (\<forall>y\<in>set ys. entry_q y \<noteq> [] \<and> entry_a y \<noteq> []) \<and> map entry_a ys = paragraphs doc"
  proof (rule map_fault_ok)
    fix p assume "p \<in> set (paragraphs doc)"
    then have "p \<noteq> []" by (rule paragraphs_nonempty)
    from paragraph_entry_ok[OF this] this
    show "\<exists>y. paragraph_entry p = Inr y \<and> (entry_q y \<noteq> [] \<and> entry_a y \<noteq> []) \<and> entry_a y = p"
      by auto
  qed
  then show ?thesis by (simp add: parseUnstructured_def)
qed

section \<open>Patterns and scores\<close>

text \<open>
  The keywords of a question are distinct. A score is \<open>NaN\<close> as soon as one pattern has no
  word, and a number between 0 and 1 otherwise.
\<close>

lemma unique_in_order_aux:
  "distinct seen \<Longrightarrow>
   distinct (foldl (\<lambda>seen x. if x \<in> set seen then seen else seen @ [x]) seen w)"
  by (induction w arbitrary: seen) auto

lemma distinct_unique_in_order: "distinct (unique_in_order w)"
  by (simp add: unique_in_order_def unique_in_order_aux)

text \<open>
  Claim C7. For every question string, \<open>buildPatternsFromQuestion\<close> returns the question
  itself, unchanged, as the first element, followed by at most 8 keywords with no
  duplicates among them; the result has between 1 and 9 elements.
\<close>

theorem buildPatterns_shape:
  "\<exists>keywords. buildPatternsFromQuestion question = question # keywords
     \<and> length keywords \<le> 8 \<and> distinct keywords
     \<and> 1 \<le> length (buildPatternsFromQuestion question)
     \<and> length (buildPatternsFromQuestion question) \<le> 9"
  by (simp add: buildPatternsFromQuestion_def Let_def distinct_unique_in_order)

lemma hits_le: "hits u words \<le> length words"
  by (simp add: hits_def)

lemma js_div_range: "h \<le> n \<Longrightarrow> unit_or_nan (js_div h n)"
  by (auto simp: js_div_def unit_or_nan_def divide_le_eq)

lemma coverage_range: "unit_or_nan (coverage u p)"
  by (simp add: coverage_def Let_def js_div_range hits_le)

lemma js_max_range: "unit_or_nan x \<Longrightarrow> unit_or_nan y \<Longrightarrow> unit_or_nan (js_max x y)"
  by (cases x; cases y) (auto simp: unit_or_nan_def)

lemma score_fold_range:
  "unit_or_nan b \<Longrightarrow> unit_or_nan (foldl (\<lambda>best p. js_max best (coverage u p)) b pats)"
  by (induction pats arbitrary: b) (simp_all add: js_max_range coverage_range)

lemma scoreMatch_range: "unit_or_nan (scoreMatch user pats)"
proof -
  have "unit_or_nan (Num 0)" by (simp add: unit_or_nan_def)
  then show ?thesis by (simp add: scoreMatch_def Let_def score_fold_range)
qed

lemma js_max_NaN_right: "js_max x NaN = NaN"
  by (cases x) simp_all

lemma score_fold_NaN: "foldl (\<lambda>best p. js_max best (coverage u p)) NaN pats = NaN"
  by (induction pats) simp_all

lemma coverage_zero_words: "pattern_words p = [] \<Longrightarrow> coverage u p = NaN"
  by (simp add: coverage_def hits_def js_div_def)

lemma coverage_words:
  "pattern_words p \<noteq> [] \<Longrightarrow> \<exists>v. coverage u p = Num v \<and> 0 \<le> v \<and> v \<le> 1"
  using hits_le[of u "pattern_words p"]
  by (auto simp: coverage_def Let_def js_div_def divide_le_eq)

lemma score_fold_zero_words:
  "p \<in> set pats \<Longrightarrow> pattern_words p = [] \<Longrightarrow>
   foldl (\<lambda>best p. js_max best (coverage u p)) b pats = NaN"
proof (induction pats arbitrary: b)
  case Nil
  then show ?case by simp
next
  case (Cons x xs)
  show ?case
  proof (cases "x = p")
    case True
    then show ?thesis using Cons.prems
      by (simp add: coverage_zero_words js_max_NaN_right score_fold_NaN)
  next
    case False
    then show ?thesis using Cons by simp
  qed
qed

lemma scoreMatch_zero_words:
  "p \<in> set pats \<Longrightarrow> pattern_words p = [] \<Longrightarrow> scoreMatch user pats = NaN"
  by (simp add: scoreMatch_def Let_def score_fold_zero_words)

lemma score_fold_words:
  "\<forall>p\<in>set pats. pattern_words p \<noteq> [] \<Longrightarrow> 0 \<le> v \<Longrightarrow> v \<le> 1 \<Longrightarrow>
   \<exists>v'. foldl (\<lambda>best p. js_max best (coverage u p)) (Num v) pats = Num v' \<and> 0 \<le> v' \<and> v' \<le> 1"
proof (induction pats arbitrary: v)
  case Nil
  then show ?case by simp
next
  case (Cons x xs)
  from Cons.prems have "pattern_words x \<noteq> []" by simp
  from coverage_words[OF this] obtain w where w: "coverage u x = Num w" "0 \<le> w" "w \<le> 1"
    by blast
  have "\<exists>v'. foldl (\<lambda>best p. js_max best (coverage u p)) (Num (max v w)) xs = Num v'
      \<and> 0 \<le> v' \<and> v' \<le> 1"
    using Cons.prems w by (intro Cons.IH) auto
  then show ?case using w by simp
qed

lemma scoreMatch_words:
  "\<forall>p\<in>set pats. pattern_words p \<noteq> [] \<Longrightarrow>
   \<exists>v. scoreMatch user pats = Num v \<and> 0 \<le> v \<and> v \<le> 1"
  using score_fold_words[of pats 0] by (simp add: scoreMatch_def Let_def)

text \<open>
  Claim C1. The claim gives every score a value in \<open>[0,1]\<close> and the coverage 0 to a
  pattern with no word. The source divides without a guard: the entry read from the
  block \<open>Q: ???\<close> has the single pattern \<open>???\<close>, which normalizes to no word, its coverage is
  \<open>0 / 0\<close>, and \<open>scoreMatch\<close> returns \<open>NaN\<close>.
\<close>

theorem scoreMatch_of_empty_pattern_is_NaN:
  "parseStructuredQA ''Q: ???\<newline>A: x''
     = Inr [\<lparr>entry_q = ''???'', entry_a = ''x'', entry_patterns = [''???'']\<rparr>]
   \<and> pattern_words ''???'' = []
   \<and> coverage ('' '' @ normalize_str ''hello'' @ '' '') ''???'' = NaN
   \<and> scoreMatch ''hello'' [''???''] = NaN"
  by code_simp

section \<open>The scan of getAnswer\<close>

text \<open>
  The invariant of the loop, kept by each step.
\<close>

lemma tracks_start: "tracks user [] \<lparr>best_i = - 1, best_s = Num 0\<rparr>"
  by (simp add: tracks_def)

lemma tracks_step:
  assumes t: "tracks user seen b" and i: "i = int (length seen)"
  shows "tracks user (seen @ [e])
           (if js_gt (scoreMatch user (entry_patterns e)) (best_s b)
            then \<lparr>best_i = i, best_s = scoreMatch user (entry_patterns e)\<rparr> else b)"
proof -
  from t obtain v where v: "best_s b = Num v" "0 \<le> v"
    "\<forall>j<length seen. \<forall>w. scoreMatch user (entry_patterns (seen ! j)) = Num w \<longrightarrow> w \<le> v"
    "if best_i b = - 1 then v = 0
     else 0 \<le> best_i b \<and> nat (best_i b) < length seen \<and> 0 < v
       \<and> scoreMatch user (entry_patterns (seen ! nat (best_i b))) = Num v
       \<and> (\<forall>j<nat (best_i b). \<forall>w.
             scoreMatch user (entry_patterns (seen ! j)) = Num w \<longrightarrow> w < v)"
    unfolding tracks_def by blast
  let ?s = "scoreMatch user (entry_patterns e)"
  have nth: "\<And>j. j < length seen \<Longrightarrow> (seen @ [e]) ! j = seen ! j" "(seen @ [e]) ! length seen = e"
    by (simp_all add: nth_append)
  have lt: "\<And>j. j < length (seen @ [e]) \<longleftrightarrow> j < length seen \<or> j = length seen" by auto
  from scoreMatch_range[of user "entry_patterns e"]
  consider "?s = NaN" | w where "?s = Num w" "0 \<le> w" "w \<le> 1"
    by (cases ?s) (auto simp: unit_or_nan_def)
  then show ?thesis
  proof cases
    case 1
    then have "(if js_gt ?s (best_s b) then \<lparr>best_i = i, best_s = ?s\<rparr> else b) = b" by simp
    moreover have "tracks user (seen @ [e]) b"
      unfolding tracks_def using v 1
      by (intro exI[of _ v]) (auto simp: lt nth nth_append split: if_splits)
    ultimately show ?thesis by simp
  next
    case 2
    show ?thesis
    proof (cases "v < w")
      case True
      then have "(if js_gt ?s (best_s b) then \<lparr>best_i = i, best_s = ?s\<rparr> else b)
          = \<lparr>best_i = i, best_s = Num w\<rparr>" using v 2 by simp
      moreover have "tracks user (seen @ [e]) \<lparr>best_i = i, best_s = Num w\<rparr>"
        unfolding tracks_def using v 2 True i
        by (intro exI[of _ w]) (force simp: lt nth nth_append)
      ultimately show ?thesis by simp
    next
      case False
      then have "(if js_gt ?s (best_s b) then \<lparr>best_i = i, best_s = ?s\<rparr> else b) = b"
        using v 2 by simp
      moreover have "tracks user (seen @ [e]) b"
        unfolding tracks_def using v 2 False
        by (intro exI[of _ v]) (auto simp: lt nth nth_append split: if_splits)
      ultimately show ?thesis by simp
    qed
  qed
qed

lemma scan_tracks:
  "tracks user seen b \<Longrightarrow> i = int (length seen) \<Longrightarrow>
   tracks user (seen @ es) (scan user es i b)"
proof (induction es arbitrary: seen b i)
  case Nil
  then show ?case by simp
next
  case (Cons e es)
  let ?b = "if js_gt (scoreMatch user (entry_patterns e)) (best_s b)
            then \<lparr>best_i = i, best_s = scoreMatch user (entry_patterns e)\<rparr> else b"
  have "tracks user (seen @ [e]) ?b" using Cons.prems by (rule tracks_step)
  moreover have "i + 1 = int (length (seen @ [e]))" using Cons.prems by simp
  ultimately have "tracks user ((seen @ [e]) @ es) (scan user es (i + 1) ?b)"
    by (rule Cons.IH)
  then show ?case by (simp add: Let_def)
qed

lemma getAnswer_tracks:
  "tracks user FAQ (scan user FAQ 0 \<lparr>best_i = - 1, best_s = Num 0\<rparr>)"
  using scan_tracks[OF tracks_start, of 0 user FAQ] by simp

text \<open>
  Claim C5. The loop of \<open>getAnswer\<close> scans the entries in order and ends with the index
  \<open>i\<close> and the score \<open>v\<close> of the best entry: no entry scores above \<open>v\<close>, and every entry before
  \<open>i\<close> scores strictly below \<open>v\<close>, so on a tie the first entry wins (an entry whose score is
  \<open>NaN\<close> compares with nothing and is passed over). The answer of entry \<open>i\<close> is returned with
  the score \<open>v\<close> exactly when \<open>v\<close> is strictly greater than 0.35; on an empty base the
  index stays \<open>-1\<close>, the score 0, and the reply is the request to rephrase.
\<close>

theorem getAnswer_selects_best:
  "\<exists>i v. scan user FAQ 0 \<lparr>best_i = - 1, best_s = Num 0\<rparr> = \<lparr>best_i = i, best_s = Num v\<rparr>
     \<and> (\<forall>j<length FAQ. \<forall>w. scoreMatch user (entry_patterns (FAQ ! j)) = Num w \<longrightarrow> w \<le> v)
     \<and> (if i = - 1 then v = 0
         else 0 \<le> i \<and> nat i < length FAQ
           \<and> scoreMatch user (entry_patterns (FAQ ! nat i)) = Num v
           \<and> (\<forall>j<nat i. \<forall>w. scoreMatch user (entry_patterns (FAQ ! j)) = Num w \<longrightarrow> w < v))
     \<and> getAnswer FAQ user
         = (if 35 / 100 < v then Inr (Answer (entry_a (FAQ ! nat i)) (Num v)) else Inr Rephrase)
     \<and> (FAQ = [] \<longrightarrow> i = - 1 \<and> v = 0 \<and> getAnswer FAQ user = Inr Rephrase)"
proof -
  let ?b = "scan user FAQ 0 \<lparr>best_i = - 1, best_s = Num 0\<rparr>"
  from getAnswer_tracks[of user FAQ] obtain v where v: "best_s ?b = Num v" "0 \<le> v"
    "\<forall>j<length FAQ. \<forall>w. scoreMatch user (entry_patterns (FAQ ! j)) = Num w \<longrightarrow> w \<le> v"
    "if best_i ?b = - 1 then v = 0
     else 0 \<le> best_i ?b \<and> nat (best_i ?b) < length FAQ \<and> 0 < v
       \<and> scoreMatch user (entry_patterns (FAQ ! nat (best_i ?b))) = Num v
       \<and> (\<forall>j<nat (best_i ?b). \<forall>w.
             scoreMatch user (entry_patterns (FAQ ! j)) = Num w \<longrightarrow> w < v)"
    unfolding tracks_def by blast
  have b: "?b = \<lparr>best_i = best_i ?b, best_s = Num v\<rparr>" using v(1) by (cases ?b) simp
  have g: "getAnswer FAQ user
      = (if 35 / 100 < v then Inr (Answer (entry_a (FAQ ! nat (best_i ?b))) (Num v)) else Inr Rephrase)"
  proof (cases "35 / 100 < v")
    case True
    with v(4) have "0 \<le> best_i ?b" "nat (best_i ?b) < length FAQ" by (auto split: if_splits)
    then have "at_index FAQ (best_i ?b) = Some (FAQ ! nat (best_i ?b))"
      by (simp add: at_index_def)
    with True v(1) show ?thesis by (simp add: getAnswer_def Let_def)
  next
    case False
    with v(1) show ?thesis by (simp add: getAnswer_def Let_def)
  qed
  have e: "FAQ = [] \<longrightarrow> best_i ?b = - 1 \<and> v = 0 \<and> getAnswer FAQ user = Inr Rephrase"
    using v(1) by (auto simp: getAnswer_def)
  show ?thesis
    apply (rule exI[of _ "best_i ?b"], rule exI[of _ v])
    using b v(3,4) g e by (auto split: if_splits)
qed

theorem getAnswer_selects_best_witness:
  "scan ''lead time'' [mk_entry ''What is lead time?'' ''first'', mk_entry ''lead time'' ''second''] 0
      \<lparr>best_i = - 1, best_s = Num 0\<rparr> = \<lparr>best_i = 0, best_s = Num 1\<rparr>
   \<and> scoreMatch ''lead time'' (entry_patterns (mk_entry ''lead time'' ''second'')) = Num 1
   \<and> getAnswer [mk_entry ''What is lead time?'' ''first'', mk_entry ''lead time'' ''second'']
        ''lead time'' = Inr (Answer ''first'' (Num 1))"
proof -
  let ?FAQ = "[mk_entry ''What is lead time?'' ''first'', mk_entry ''lead time'' ''second'']"
  have s: "scan ''lead time'' ?FAQ 0 \<lparr>best_i = - 1, best_s = Num 0\<rparr> = \<lparr>best_i = 0, best_s = Num 1\<rparr>"
    by code_simp
  have t: "scoreMatch ''lead time'' (entry_patterns (mk_entry ''lead time'' ''second'')) = Num 1"
    by code_simp
  have a: "entry_a (?FAQ ! 0) = ''first''" by (simp add: mk_entry_def)
  from getAnswer_selects_best[of "''lead time''" ?FAQ] obtain i v where
    iv: "scan ''lead time'' ?FAQ 0 \<lparr>best_i = - 1, best_s = Num 0\<rparr> = \<lparr>best_i = i, best_s = Num v\<rparr>"
    "getAnswer ?FAQ ''lead time''
       = (if 35 / 100 < v then Inr (Answer (entry_a (?FAQ ! nat i)) (Num v)) else Inr Rephrase)"
    by blast
  from iv(1) s have "i = 0" "v = 1" by simp_all
  with iv(2) a have "getAnswer ?FAQ ''lead time'' = Inr (Answer ''first'' (Num 1))" by simp
  with s t show ?thesis by simp
qed

text \<open>
  Claim C10. Whenever \<open>getAnswer\<close> takes the confident branch (the best score is
  strictly greater than 0.35), the best index is at least 0 and less than the length
  of the base, so the lookup \<open>FAQ[best.i]\<close> finds an entry and its answer is returned.
\<close>

theorem confident_index_valid:
  assumes "js_gt (best_s (scan user FAQ 0 \<lparr>best_i = - 1, best_s = Num 0\<rparr>)) (Num (35 / 100))"
  shows "0 \<le> best_i (scan user FAQ 0 \<lparr>best_i = - 1, best_s = Num 0\<rparr>)
     \<and> best_i (scan user FAQ 0 \<lparr>best_i = - 1, best_s = Num 0\<rparr>) < int (length FAQ)
     \<and> (\<exists>item. at_index FAQ (best_i (scan user FAQ 0 \<lparr>best_i = - 1, best_s = Num 0\<rparr>)) = Some item
          \<and> getAnswer FAQ user
              = Inr (Answer (entry_a item) (best_s (scan user FAQ 0 \<lparr>best_i = - 1, best_s = Num 0\<rparr>))))"
proof -
  let ?b = "scan user FAQ 0 \<lparr>best_i = - 1, best_s = Num 0\<rparr>"
  from getAnswer_tracks[of user FAQ] obtain v where v: "best_s ?b = Num v"
    "if best_i ?b = - 1 then v = 0
     else 0 \<le> best_i ?b \<and> nat (best_i ?b) < length FAQ \<and> 0 < v
       \<and> scoreMatch user (entry_patterns (FAQ ! nat (best_i ?b))) = Num v
       \<and> (\<forall>j<nat (best_i ?b). \<forall>w.
             scoreMatch user (entry_patterns (FAQ ! j)) = Num w \<longrightarrow> w < v)"
    unfolding tracks_def by blast
  from assms v(1) have "35 / 100 < v" by simp
  with v(2) have i: "0 \<le> best_i ?b" "nat (best_i ?b) < length FAQ" by (auto split: if_splits)
  then have "at_index FAQ (best_i ?b) = Some (FAQ ! nat (best_i ?b))" by (simp add: at_index_def)
  with i assms show ?thesis by (simp add: getAnswer_def Let_def)
qed

theorem confident_index_valid_witness:
  "js_gt (best_s (scan ''lead time'' [mk_entry ''lead time'' ''second''] 0
        \<lparr>best_i = - 1, best_s = Num 0\<rparr>)) (Num (35 / 100))
   \<and> best_i (scan ''lead time'' [mk_entry ''lead time'' ''second''] 0
        \<lparr>best_i = - 1, best_s = Num 0\<rparr>) = 0
   \<and> getAnswer [mk_entry ''lead time'' ''second''] ''lead time'' = Inr (Answer ''second'' (Num 1))"
proof -
  let ?FAQ = "[mk_entry ''lead time'' ''second'']"
  have s: "scan ''lead time'' ?FAQ 0 \<lparr>best_i = - 1, best_s = Num 0\<rparr> = \<lparr>best_i = 0, best_s = Num 1\<rparr>"
    by code_simp
  then have h: "js_gt (best_s (scan ''lead time'' ?FAQ 0 \<lparr>best_i = - 1, best_s = Num 0\<rparr>)) (Num (35 / 100))"
    by simp
  from confident_index_valid[OF h] s
  have "getAnswer ?FAQ ''lead time'' = Inr (Answer ''second'' (Num 1))"
    by (auto simp: at_index_def mk_entry_def)
  with h s show ?thesis by simp
qed

section \<open>Reloading\<close>

text \<open>
  Claim C2, as stated: a reload that fails leaves the knowledge base as it was. The
  handler assigns whatever \<open>loadPdfKnowledge\<close> returns, and that is the empty base when
  the extraction raises an error: a base of one entry does not survive it.
\<close>

theorem reload_failure_drops_entries:
  "reload [mk_entry ''x'' ''y''] ExtractionError \<noteq> Inr [mk_entry ''x'' ''y'']"
  by (simp add: reload_def loadPdfKnowledge_def)

text \<open>
  Claim C2, amended. When the file is missing, when the extraction raises an error, or
  when the extracted text is blank, the reload returns normally and the knowledge
  base becomes the empty sequence, whatever it held before.
\<close>

theorem reload_failure_gives_empty:
  "reload KB NoFile = Inr [] \<and> reload KB ExtractionError = Inr []
   \<and> (trim t = [] \<longrightarrow> reload KB (Extracted t) = Inr [])"
  by (simp add: reload_def loadPdfKnowledge_def)

theorem reload_failure_gives_empty_witness:
  "trim '' \<newline>'' = [] \<and> reload [mk_entry ''x'' ''y''] (Extracted '' \<newline>'') = Inr []"
proof -
  have t: "trim '' \<newline>'' = []" by code_simp
  with reload_failure_gives_empty[of "[mk_entry ''x'' ''y'']" "'' \<newline>''"]
  show ?thesis by simp
qed

section \<open>Literals under the i flag\<close>

text \<open>
  Which characters the literals of \<open>regexQA\<close> match.
\<close>

lemma of_char_canonicalize:
  "(of_char (canonicalize x) :: nat) =
     (if (97 \<le> (of_char x :: nat) \<and> (of_char x :: nat) \<le> 122)
         \<or> (224 \<le> (of_char x :: nat) \<and> (of_char x :: nat) \<le> 254 \<and> (of_char x :: nat) \<noteq> 247)
      then of_char x - 32 else of_char x)"
  by (auto simp: canonicalize_def Let_def of_char_of)

lemma canonicalize_eq_code:
  "(canonicalize x = canonicalize c)
     = ((of_char (canonicalize x) :: nat) = of_char (canonicalize c))"
  by simp

lemma char_eq_code: "(x = c) = ((of_char x :: nat) = of_char c)"
  by simp

lemma canonicalize_newline [simp]:
  "(canonicalize x = canonicalize CHR 0x0A) = (x = CHR 0x0A)"
proof -
  have "(canonicalize x = canonicalize CHR 0x0A) = ((of_char x :: nat) = 10)"
    unfolding canonicalize_eq_code of_char_canonicalize by (simp split: if_splits) arith
  also have "\<dots> = (x = CHR 0x0A)"
    unfolding char_eq_code[of x] by simp
  finally show ?thesis .
qed

lemma canonicalize_colon [simp]:
  "(canonicalize x = canonicalize CHR '':'') = (x = CHR '':'')"
proof -
  have "(canonicalize x = canonicalize CHR '':'') = ((of_char x :: nat) = 58)"
    unfolding canonicalize_eq_code of_char_canonicalize by (simp split: if_splits) arith
  also have "\<dots> = (x = CHR '':'')"
    unfolding char_eq_code[of x] by simp
  finally show ?thesis .
qed

lemma canonicalize_Q:
  "(canonicalize x = canonicalize CHR ''Q'') = (x = CHR ''Q'' \<or> x = CHR ''q'')"
proof -
  have "(canonicalize x = canonicalize CHR ''Q'') = ((of_char x :: nat) = 81 \<or> (of_char x :: nat) = 113)"
    unfolding canonicalize_eq_code of_char_canonicalize by (simp split: if_splits) arith
  also have "\<dots> = (x = CHR ''Q'' \<or> x = CHR ''q'')"
    unfolding char_eq_code[of x] by simp
  finally show ?thesis .
qed

lemma canonicalize_A:
  "(canonicalize x = canonicalize CHR ''A'') = (x = CHR ''A'' \<or> x = CHR ''a'')"
proof -
  have "(canonicalize x = canonicalize CHR ''A'') = ((of_char x :: nat) = 65 \<or> (of_char x :: nat) = 97)"
    unfolding canonicalize_eq_code of_char_canonicalize by (simp split: if_splits) arith
  also have "\<dots> = (x = CHR ''A'' \<or> x = CHR ''a'')"
    unfolding char_eq_code[of x] by simp
  finally show ?thesis .
qed

section \<open>Whole words\<close>

text \<open>
  A word between two spaces of the padded text is one of the pieces of the split of the
  text on spaces.
\<close>

lemma includes_str_decomp: "includes_str s t \<Longrightarrow> \<exists>ps ss. s = ps @ t @ ss"
proof (induction s)
  case Nil
  then show ?case by simp
next
  case (Cons c cs)
  from Cons.prems have "prefix t (c # cs) \<or> includes_str cs t" by simp
  then show ?case
  proof
    assume "prefix t (c # cs)"
    then obtain ss where "c # cs = t @ ss" by (auto simp: prefix_def)
    then have "c # cs = [] @ t @ ss" by simp
    then show ?thesis by blast
  next
    assume "includes_str cs t"
    from Cons.IH[OF this] obtain ps ss where "cs = ps @ t @ ss" by blast
    then have "c # cs = (c # ps) @ t @ ss" by simp
    then show ?thesis by blast
  qed
qed

lemma split_on_nonempty: "split_on sep s \<noteq> []"
  by (induction s) (auto simp: neq_Nil_conv elim: cons_first.elims)

lemma cons_first_append: "xs \<noteq> [] \<Longrightarrow> cons_first c (xs @ ys) = cons_first c xs @ ys"
  by (cases xs) simp_all

lemma split_on_append:
  "split_on sep (xs @ sep # ys) = split_on sep xs @ split_on sep ys"
  by (induction xs) (simp_all add: cons_first_append split_on_nonempty)

lemma split_on_no_sep: "sep \<notin> set w \<Longrightarrow> split_on sep w = [w]"
  by (induction w) auto

lemma padded_word_is_piece:
  assumes inc: "includes_str (sep # n @ [sep]) (sep # w @ [sep])"
    and w: "sep \<notin> set w" "w \<noteq> []"
  shows "w \<in> set (split_on sep n)"
proof -
  from includes_str_decomp[OF inc] obtain ps ss where
    eq: "sep # n @ [sep] = ps @ (sep # w @ [sep]) @ ss" by blast
  have "split_on sep (sep # n @ [sep]) = [] # split_on sep n @ [[]]"
    using split_on_append[of sep n "[]"] by simp
  moreover have "split_on sep (ps @ (sep # w @ [sep]) @ ss)
      = split_on sep ps @ [w] @ split_on sep ss"
    using split_on_append[of sep ps "w @ sep # ss"] split_on_append[of sep w ss]
    by (simp add: split_on_no_sep w)
  ultimately have "[] # split_on sep n @ [[]] = split_on sep ps @ [w] @ split_on sep ss"
    using eq by simp
  then have "w \<in> set ([] # split_on sep n @ [[]])" by simp
  with w(2) show ?thesis by auto
qed

text \<open>
  Claim C9. Hits are counted on whole words only: when the word \<open>cat\<close> is not one of the
  words of the normalized query, as for a query that has \<open>category\<close> there, the pattern word
  \<open>cat\<close> counts no hit and the pattern \<open>cat\<close> scores 0.
\<close>

theorem hits_whole_word_only:
  assumes "''cat'' \<notin> set (split_on CHR '' '' (normalize_str query))"
  shows "hits ('' '' @ normalize_str query @ '' '') (pattern_words ''cat'') = 0
     \<and> scoreMatch query [''cat''] = Num 0"
proof -
  have pw: "pattern_words ''cat'' = [''cat'']" by code_simp
  have "\<not> includes_str ('' '' @ normalize_str query @ '' '') ('' '' @ ''cat'' @ '' '')"
  proof
    assume "includes_str ('' '' @ normalize_str query @ '' '') ('' '' @ ''cat'' @ '' '')"
    then have "includes_str (CHR '' '' # normalize_str query @ [CHR '' ''])
        (CHR '' '' # ''cat'' @ [CHR '' ''])" by simp
    from padded_word_is_piece[OF this] assms show False by simp
  qed
  then have h: "hits ('' '' @ normalize_str query @ '' '') [''cat''] = 0"
    by (simp add: hits_def)
  then show ?thesis
    by (simp add: pw scoreMatch_def Let_def coverage_def js_div_def)
qed

theorem hits_whole_word_only_witness:
  "includes_str (normalize_str ''Which Category?'') ''category''
   \<and> ''cat'' \<notin> set (split_on CHR '' '' (normalize_str ''Which Category?''))
   \<and> hits ('' '' @ normalize_str ''Which Category?'' @ '' '') (pattern_words ''cat'') = 0
   \<and> scoreMatch ''Which Category?'' [''cat''] = Num 0"
proof -
  have c: "includes_str (normalize_str ''Which Category?'') ''category''" by code_simp
  have h: "''cat'' \<notin> set (split_on CHR '' '' (normalize_str ''Which Category?''))" by code_simp
  from hits_whole_word_only[OF h] c h show ?thesis by simp
qed

section \<open>The fallback base\<close>

text \<open>
  Without a question marker in the text the structured strategy finds nothing, and the
  fallback strategy decides.
\<close>

lemma has_marker_Cons: "has_marker mk cs \<Longrightarrow> has_marker mk (c # cs)"
  by (cases cs) auto

lemma has_marker_drop: "has_marker mk (drop n cs) \<Longrightarrow> has_marker mk cs"
proof (induction cs arbitrary: n)
  case Nil
  then show ?case by simp
next
  case (Cons c cs)
  then show ?case by (cases n) (auto intro: has_marker_Cons)
qed

lemma matcher_Seq: "matcher (Seq a b) k = matcher a (matcher b k)"
  by (rule ext) simp

lemma paragraphs_Nil: "paragraphs [] = []"
  by (simp add: paragraphs_def trim_def)

lemma lit_i_step:
  "matcher (lit_i c) k s = Some x \<Longrightarrow>
   \<exists>d ds. rest s = d # ds \<and> canonicalize d = canonicalize c
      \<and> k (s\<lparr>rest := ds, idx := Suc (idx s)\<rparr>) = Some x"
  by (auto simp: lit_i_def split: list.splits if_splits)

lemma regexQA_needs_marker:
  assumes "matcher regexQA Some s = Some x"
  shows "has_marker CHR ''Q'' (rest s)"
proof -
  define K where "K = matcher (seqs
     [Star True re_space, Group 1 (Plus False re_dot), Star True re_space,
      lit_i CHR 0x0A, lit_i CHR ''A'', lit_i CHR '':'', Star True re_space,
      Group 2 (Star False re_any),
      Look (Alt (seqs [lit_i CHR 0x0A, lit_i CHR ''Q'', lit_i CHR '':'']) Eol)]) Some"
  from assms have "matcher (Alt Bol (lit_i CHR 0x0A))
      (matcher (Star True re_space) (matcher (lit_i CHR ''Q'') (matcher (lit_i CHR '':'') K))) s = Some x"
    by (simp only: regexQA_def K_def seqs.simps matcher_Seq)
  from matcher_reach[OF this] obtain s1 where s1: "later s s1"
    "matcher (Star True re_space) (matcher (lit_i CHR ''Q'') (matcher (lit_i CHR '':'') K)) s1 = Some x"
    by blast
  from matcher_reach[OF s1(2)] obtain s2 where s2: "later s1 s2"
    "matcher (lit_i CHR ''Q'') (matcher (lit_i CHR '':'') K) s2 = Some x"
    by blast
  from lit_i_step[OF s2(2)] obtain d ds where d: "rest s2 = d # ds"
    "canonicalize d = canonicalize CHR ''Q''"
    "matcher (lit_i CHR '':'') K (s2\<lparr>rest := ds, idx := Suc (idx s2)\<rparr>) = Some x"
    by blast
  from lit_i_step[OF d(3)] obtain e es where e: "ds = e # es" "e = CHR '':''"
    by auto
  have "later s s2" using s1(1) s2(1) by (rule later_trans)
  then have "rest s2 = drop (idx s2 - idx s) (rest s)" by (simp add: later_def)
  moreover have "has_marker CHR ''Q'' (rest s2)" using d e by simp
  ultimately show ?thesis using has_marker_drop by metis
qed

lemma exec_from_needs_marker:
  assumes "exec_from regexQA cs i = Some x"
  shows "has_marker CHR ''Q'' cs"
proof -
  from exec_from_start[OF assms] obtain j where
    "matcher regexQA Some \<lparr>rest = drop j cs, idx = i + j, caps = (\<lambda>_. None)\<rparr> = Some x"
    by blast
  from regexQA_needs_marker[OF this] show ?thesis using has_marker_drop by simp
qed

lemma parseStructuredQA_no_marker:
  assumes "\<not> has_marker CHR ''Q'' doc"
  shows "parseStructuredQA doc = Inr []"
proof -
  have "exec_from regexQA (drop 0 doc) 0 = None"
    using exec_from_needs_marker[of doc 0] assms by (cases "exec_from regexQA doc 0") auto
  then show ?thesis by (simp add: parseStructuredQA_def exec_loop.simps[of doc 0])
qed

text \<open>
  Claim C8. The fallback base is capped at 300 entries: for a text with no question
  marker whose split on runs of two or more newlines leaves 301 or more non-empty
  paragraphs, \<open>loadPdfKnowledge\<close> returns exactly 300 entries, those of the first 300
  paragraphs; the later ones are dropped.
\<close>

theorem fallback_cap:
  assumes "\<not> has_marker CHR ''Q'' (trim t)" and "301 \<le> length (paragraphs (trim t))"
  shows "\<exists>kb. loadPdfKnowledge (Extracted t) = Inr kb \<and> length kb = 300
     \<and> map entry_a kb = take 300 (paragraphs (trim t))"
proof -
  have ne: "trim t \<noteq> []"
  proof
    assume "trim t = []"
    then have "paragraphs (trim t) = []" by (simp only: paragraphs_Nil)
    with assms(2) show False by simp
  qed
  from parseUnstructured_ok[of "trim t"] obtain es where
    es: "parseUnstructured (trim t) = Inr es" "map entry_a es = paragraphs (trim t)"
    by blast
  from es(2) have len: "length es = length (paragraphs (trim t))"
    by (metis length_map)
  have "loadPdfKnowledge (Extracted t) = Inr (take 300 es)"
    using ne parseStructuredQA_no_marker[OF assms(1)] es(1)
    by (simp add: loadPdfKnowledge_def Let_def)
  moreover have "length (take 300 es) = 300" using len assms(2) by simp
  moreover have "map entry_a (take 300 es) = take 300 (paragraphs (trim t))"
    using es(2) by (metis take_map)
  ultimately show ?thesis by blast
qed

theorem fallback_cap_witness:
  "\<not> has_marker CHR ''Q'' (trim (concat (replicate 300 ''a\<newline>\<newline>'') @ ''a''))
   \<and> 301 \<le> length (paragraphs (trim (concat (replicate 300 ''a\<newline>\<newline>'') @ ''a'')))
   \<and> (\<exists>kb. loadPdfKnowledge (Extracted (concat (replicate 300 ''a\<newline>\<newline>'') @ ''a'')) = Inr kb
         \<and> length kb = 300)"
proof -
  have w1: "\<not> has_marker CHR ''Q'' (trim (concat (replicate 300 ''a\<newline>\<newline>'') @ ''a''))"
    by code_simp
  have w2: "301 \<le> length (paragraphs (trim (concat (replicate 300 ''a\<newline>\<newline>'') @ ''a'')))"
    by code_simp
  from fallback_cap[OF w1 w2] w1 w2 show ?thesis by blast
qed

text \<open>
  Claim C4, as stated: every entry of either strategy has a non-empty label and a
  non-empty body. The structured strategy keeps a block whose answer is missing, with an
  empty body, and trims a blank question to an empty label.
\<close>

theorem structured_entry_can_be_empty:
  "parseStructuredQA ''Q: \<newline>A: x''
     = Inr [\<lparr>entry_q = [], entry_a = ''x'', entry_patterns = [[]]\<rparr>]
   \<and> parseStructuredQA ''Q: x\<newline>A:''
     = Inr [\<lparr>entry_q = ''x'', entry_a = [], entry_patterns = [''x'']\<rparr>]"
  by code_simp

text \<open>
  Claim C4, amended. For every input text the fallback strategy returns, and every
  entry it produces has a non-empty label and a non-empty body.
\<close>

theorem fallback_entries_nonempty:
  "\<exists>es. parseUnstructured doc = Inr es \<and> (\<forall>e\<in>set es. entry_q e \<noteq> [] \<and> entry_a e \<noteq> [])"
  using parseUnstructured_ok[of doc] by blast

theorem fallback_entries_nonempty_witness:
  "parseUnstructured ''Title line\<newline>Second sentence. More\<newline>\<newline>-----''
     = Inr [\<lparr>entry_q = ''Second sentence.'', entry_a = ''Title line\<newline>Second sentence. More'',
              entry_patterns = [''Second sentence.'', ''second'', ''sentence'']\<rparr>,
            \<lparr>entry_q = ''-----'', entry_a = ''-----'', entry_patterns = [''-----'']\<rparr>]
   \<and> ''Second sentence.'' \<noteq> [] \<and> ''-----'' \<noteq> []"
proof -
  let ?doc = "''Title line\<newline>Second sentence. More\<newline>\<newline>-----''"
  let ?es = "[\<lparr>entry_q = ''Second sentence.'', entry_a = ''Title line\<newline>Second sentence. More'',
              entry_patterns = [''Second sentence.'', ''second'', ''sentence'']\<rparr>,
            \<lparr>entry_q = ''-----'', entry_a = ''-----'', entry_patterns = [''-----'']\<rparr>]"
  have e: "parseUnstructured ?doc = Inr ?es" by code_simp
  from fallback_entries_nonempty[of ?doc] obtain es where
    "parseUnstructured ?doc = Inr es" "\<forall>e\<in>set es. entry_q e \<noteq> [] \<and> entry_a e \<noteq> []" by blast
  with e have "\<forall>e\<in>set ?es. entry_q e \<noteq> [] \<and> entry_a e \<noteq> []" by simp
  then have "''Second sentence.'' \<noteq> [] \<and> ''-----'' \<noteq> []" by simp
  with e show ?thesis by blast
qed

section \<open>Runs of a character class\<close>

text \<open>
  A quantifier over a character class on a run of characters of the class. The greedy
  one tries its continuation after the whole run first and then after each shorter part
  of it; the lazy one after no character first and then after each longer part.
\<close>

lemma Chr_Nil: "matcher (Chr P) k (st [] i f) = None"
  by simp

lemma Chr_Cons: "matcher (Chr P) k (st (c # cs) i f) = (if P c then k (st cs (Suc i) f) else None)"
  by simp

lemma star_greedy_Nil: "matcher (Star True (Chr P)) k (st [] i f) = k (st [] i f)"
  by simp

lemma star_greedy_Cons:
  "matcher (Star True (Chr P)) k (st (c # cs) i f) =
     (if P c
      then (case matcher (Star True (Chr P)) k (st cs (Suc i) f) of
              Some r \<Rightarrow> Some r
            | None \<Rightarrow> k (st (c # cs) i f))
      else k (st (c # cs) i f))"
  by simp

lemma star_lazy_Nil: "matcher (Star False (Chr P)) k (st [] i f) = k (st [] i f)"
  by (simp split: option.splits)

lemma star_lazy_Cons:
  "matcher (Star False (Chr P)) k (st (c # cs) i f) =
     (case k (st (c # cs) i f) of
        Some r \<Rightarrow> Some r
      | None \<Rightarrow> if P c then matcher (Star False (Chr P)) k (st cs (Suc i) f) else None)"
  by (simp split: option.splits)

declare matcher.simps [simp del]

lemma greedy_run_fails:
  assumes "\<forall>c\<in>set xs. P c" "r = [] \<or> \<not> P (hd r)"
    and "\<forall>n\<le>length xs. k (st (drop n xs @ r) (i + n) f) = None"
  shows "matcher (Star True (Chr P)) k (st (xs @ r) i f) = None"
  using assms
proof (induction xs arbitrary: i)
  case Nil
  then show ?case by (cases r) (auto simp: star_greedy_Nil star_greedy_Cons)
next
  case (Cons x xs)
  have "\<forall>n\<le>length xs. k (st (drop n xs @ r) (Suc i + n) f) = None"
  proof (intro allI impI)
    fix n assume "n \<le> length xs"
    then have "Suc n \<le> length (x # xs)" by simp
    with Cons.prems(3) have "k (st (drop (Suc n) (x # xs) @ r) (i + Suc n) f) = None" by blast
    then show "k (st (drop n xs @ r) (Suc i + n) f) = None" by simp
  qed
  with Cons have "matcher (Star True (Chr P)) k (st (xs @ r) (Suc i) f) = None" by simp
  moreover from Cons.prems(3) have "k (st (drop 0 (x # xs) @ r) (i + 0) f) = None" by blast
  ultimately show ?case using Cons.prems(1) by (simp add: star_greedy_Cons)
qed

lemma greedy_run:
  assumes "\<forall>c\<in>set xs. P c" "r = [] \<or> \<not> P (hd r)"
    and "j \<le> length xs"
    and "\<forall>n. j < n \<and> n \<le> length xs \<longrightarrow> k (st (drop n xs @ r) (i + n) f) = None"
    and "k (st (drop j xs @ r) (i + j) f) = Some x"
  shows "matcher (Star True (Chr P)) k (st (xs @ r) i f) = Some x"
  using assms
proof (induction xs arbitrary: i j)
  case Nil
  then show ?case by (cases r) (auto simp: star_greedy_Nil star_greedy_Cons)
next
  case (Cons y ys)
  show ?case
  proof (cases j)
    case 0
    have "\<forall>n\<le>length ys. k (st (drop n ys @ r) (Suc i + n) f) = None"
    proof (intro allI impI)
      fix n assume "n \<le> length ys"
      then have "j < Suc n \<and> Suc n \<le> length (y # ys)" using 0 by simp
      with Cons.prems(4) have "k (st (drop (Suc n) (y # ys) @ r) (i + Suc n) f) = None" by blast
      then show "k (st (drop n ys @ r) (Suc i + n) f) = None" by simp
    qed
    with Cons.prems(1,2) have "matcher (Star True (Chr P)) k (st (ys @ r) (Suc i) f) = None"
      by (intro greedy_run_fails) auto
    moreover from Cons.prems(5) 0 have "k (st ((y # ys) @ r) i f) = Some x" by simp
    ultimately show ?thesis using Cons.prems(1) by (simp add: star_greedy_Cons)
  next
    case (Suc j')
    have a: "\<forall>n. j' < n \<and> n \<le> length ys \<longrightarrow> k (st (drop n ys @ r) (Suc i + n) f) = None"
    proof (intro allI impI)
      fix n assume "j' < n \<and> n \<le> length ys"
      then have "j < Suc n \<and> Suc n \<le> length (y # ys)" using Suc by simp
      with Cons.prems(4) have "k (st (drop (Suc n) (y # ys) @ r) (i + Suc n) f) = None" by blast
      then show "k (st (drop n ys @ r) (Suc i + n) f) = None" by simp
    qed
    have b: "k (st (drop j' ys @ r) (Suc i + j') f) = Some x"
      using Cons.prems(5) Suc by simp
    have "matcher (Star True (Chr P)) k (st (ys @ r) (Suc i) f) = Some x"
      using Cons.prems(1,2,3) Suc a b by (intro Cons.IH[where j = j']) auto
    then show ?thesis using Cons.prems(1) by (simp add: star_greedy_Cons)
  qed
qed

lemma lazy_run:
  assumes "\<forall>c\<in>set xs. P c"
    and "\<forall>n<length xs. k (st (drop n xs @ r) (i + n) f) = None"
    and "k (st r (i + length xs) f) = Some x"
  shows "matcher (Star False (Chr P)) k (st (xs @ r) i f) = Some x"
  using assms
proof (induction xs arbitrary: i)
  case Nil
  then show ?case by (cases r) (auto simp: star_lazy_Nil star_lazy_Cons)
next
  case (Cons y ys)
  have "\<forall>n<length ys. k (st (drop n ys @ r) (Suc i + n) f) = None"
  proof (intro allI impI)
    fix n assume "n < length ys"
    then have "Suc n < length (y # ys)" by simp
    with Cons.prems(2) have "k (st (drop (Suc n) (y # ys) @ r) (i + Suc n) f) = None" by blast
    then show "k (st (drop n ys @ r) (Suc i + n) f) = None" by simp
  qed
  moreover have "k (st r (Suc i + length ys) f) = Some x" using Cons.prems(3) by simp
  ultimately have "matcher (Star False (Chr P)) k (st (ys @ r) (Suc i) f) = Some x"
    using Cons.prems(1) by (intro Cons.IH) auto
  moreover from Cons.prems(2) have "k (st (drop 0 (y # ys) @ r) (i + 0) f) = None" by force
  ultimately show ?case using Cons.prems(1) by (simp add: star_lazy_Cons)
qed

lemma lazy_run_fails:
  assumes "\<forall>c\<in>set xs. P c" "r = [] \<or> \<not> P (hd r)"
    and "\<forall>n\<le>length xs. k (st (drop n xs @ r) (i + n) f) = None"
  shows "matcher (Star False (Chr P)) k (st (xs @ r) i f) = None"
  using assms
proof (induction xs arbitrary: i)
  case Nil
  then show ?case by (cases r) (auto simp: star_lazy_Nil star_lazy_Cons)
next
  case (Cons y ys)
  have "\<forall>n\<le>length ys. k (st (drop n ys @ r) (Suc i + n) f) = None"
  proof (intro allI impI)
    fix n assume "n \<le> length ys"
    then have "Suc n \<le> length (y # ys)" by simp
    with Cons.prems(3) have "k (st (drop (Suc n) (y # ys) @ r) (i + Suc n) f) = None" by blast
    then show "k (st (drop n ys @ r) (Suc i + n) f) = None" by simp
  qed
  with Cons have "matcher (Star False (Chr P)) k (st (ys @ r) (Suc i) f) = None" by simp
  moreover from Cons.prems(3) have "k (st (drop 0 (y # ys) @ r) (i + 0) f) = None" by blast
  ultimately show ?case using Cons.prems(1) by (simp add: star_lazy_Cons)
qed

section \<open>The parts of a block\<close>

text \<open>
  The expression \<open>regexQA\<close> on a block, from its end backwards: the lookahead, the answer,
  the answer marker, the question, the question marker, and the beginning of the match.
  Each lemma gives the state on which the continuation is called.
\<close>

lemma regexQA_unfold:
  "matcher regexQA k = matcher (Alt Bol (lit_i CHR 0x0A)) (matcher (Star True re_space) (marker_Q k))"
  by (simp only: regexQA_def seqs.simps matcher_Seq)

lemma lit_i_Nil: "matcher (lit_i c) k (st [] i f) = None"
  by (simp add: lit_i_def Chr_Nil)

lemma lit_i_Cons:
  "matcher (lit_i c) k (st (d # ds) i f)
     = (if canonicalize d = canonicalize c then k (st ds (Suc i) f) else None)"
  by (simp add: lit_i_def Chr_Cons)

lemma look_next_iff:
  "matcher look_next k (st r i f) = (if block_end r then k (st r i f) else None)"
proof (cases r)
  case Nil
  then show ?thesis by (simp add: matcher.simps lit_i_Nil)
next
  case r1: (Cons x r1)
  show ?thesis
  proof (cases r1)
    case Nil
    with r1 show ?thesis by (simp add: matcher.simps lit_i_Nil lit_i_Cons)
  next
    case r2: (Cons y r2)
    show ?thesis
    proof (cases r2)
      case Nil
      with r1 r2 show ?thesis by (simp add: matcher.simps lit_i_Nil lit_i_Cons)
    next
      case (Cons z r3)
      with r1 r2 show ?thesis by (simp add: matcher.simps lit_i_Nil lit_i_Cons)
    qed
  qed
qed

lemma block_end_no_newline: "r \<noteq> [] \<Longrightarrow> hd r \<noteq> CHR 0x0A \<Longrightarrow> \<not> block_end r"
  by (cases r rule: block_end.cases) auto

lemma body_match:
  assumes "CHR 0x0A \<notin> set body" "block_end tail"
    and "k (st tail (i + length body) (f(2 \<mapsto> body))) = Some x"
  shows "matcher (Group 2 (Star False re_any)) (matcher look_next k) (st (body @ tail) i f) = Some x"
proof -
  let ?k = "\<lambda>s'. matcher look_next k
      (s'\<lparr>caps := (caps s')(2 \<mapsto> take (idx s' - i) (body @ tail))\<rparr>)"
  have "matcher (Star False (Chr (\<lambda>c. True))) ?k (st (body @ tail) i f) = Some x"
  proof (rule lazy_run)
    show "\<forall>c\<in>set body. True" by simp
    show "\<forall>n<length body. ?k (st (drop n body @ tail) (i + n) f) = None"
    proof (intro allI impI)
      fix n assume n: "n < length body"
      then have "drop n body \<noteq> []" by simp
      moreover have "hd (drop n body) \<in> set body"
        using n by (metis hd_drop_conv_nth nth_mem)
      ultimately have "\<not> block_end (drop n body @ tail)"
        using assms(1) by (intro block_end_no_newline) auto
      then show "?k (st (drop n body @ tail) (i + n) f) = None"
        by (simp add: look_next_iff)
    qed
    show "?k (st tail (i + length body) f) = Some x"
      using assms(2,3) by (simp add: look_next_iff)
  qed
  then show ?thesis by (simp add: matcher.simps(7) re_any_def)
qed

lemma answer_tail_match:
  assumes "\<forall>c\<in>set sp. is_space c" "body \<noteq> []" "\<not> is_space (hd body)"
    and "CHR 0x0A \<notin> set body" "block_end tail"
    and "k (st tail (i + length sp + length body) (f(2 \<mapsto> body))) = Some x"
  shows "answer_tail k (st (sp @ body @ tail) i f) = Some x"
  unfolding re_space_def
proof (rule greedy_run[where j = "length sp"])
  show "\<forall>c\<in>set sp. is_space c" by fact
  show "body @ tail = [] \<or> \<not> is_space (hd (body @ tail))" using assms(2,3) by simp
  show "length sp \<le> length sp" by simp
  show "\<forall>n. length sp < n \<and> n \<le> length sp \<longrightarrow>
      matcher (Group 2 (Star False re_any)) (matcher look_next k)
        (st (drop n sp @ body @ tail) (i + n) f) = None" by auto
  show "matcher (Group 2 (Star False re_any)) (matcher look_next k)
        (st (drop (length sp) sp @ body @ tail) (i + length sp) f) = Some x"
    using body_match[OF assms(4,5), of k "i + length sp" f x] assms(6) by simp
qed

lemma marker_not_space:
  "canonicalize c = canonicalize CHR ''A'' \<Longrightarrow> \<not> is_space c"
  "canonicalize c = canonicalize CHR ''Q'' \<Longrightarrow> \<not> is_space c"
  by (auto simp: canonicalize_A canonicalize_Q is_space_def)

lemma newline_is_space: "is_space CHR 0x0A"
  by (simp add: is_space_def)

lemma marker_A_miss:
  assumes "CHR 0x0A \<notin> set xs" "\<not> is_space c"
  shows "marker_A k (st (xs @ c # r) i f) = None"
  using assms(1)
proof (induction xs arbitrary: i)
  case Nil
  have "c \<noteq> CHR 0x0A" using assms(2) newline_is_space by auto
  then show ?case using assms(2)
    by (simp add: re_space_def star_greedy_Cons lit_i_Cons)
next
  case (Cons y ys)
  then have "marker_A k (st (ys @ c # r) (Suc i) f) = None" by simp
  moreover have "y \<noteq> CHR 0x0A" using Cons.prems by auto
  ultimately show ?case
    by (simp add: re_space_def star_greedy_Cons lit_i_Cons)
qed

lemma marker_A_hit:
  assumes "\<forall>c\<in>set tws. is_space c" "canonicalize ac = canonicalize CHR ''A''"
    and "k (st r (i + length tws + 3) f) = Some x"
  shows "marker_A k (st (tws @ CHR 0x0A # ac # CHR '':'' # r) i f) = Some x"
proof -
  let ?k = "matcher (lit_i CHR 0x0A) (matcher (lit_i CHR ''A'') (matcher (lit_i CHR '':'') k))"
  have ac: "\<not> is_space ac" "ac \<noteq> CHR 0x0A"
    using assms(2) marker_not_space(1) newline_is_space by auto
  have "matcher (Star True (Chr is_space)) ?k (st ((tws @ [CHR 0x0A]) @ ac # CHR '':'' # r) i f) = Some x"
  proof (rule greedy_run[where j = "length tws"])
    show "\<forall>c\<in>set (tws @ [CHR 0x0A]). is_space c" using assms(1) newline_is_space by auto
    show "ac # CHR '':'' # r = [] \<or> \<not> is_space (hd (ac # CHR '':'' # r))" using ac by simp
    show "length tws \<le> length (tws @ [CHR 0x0A])" by simp
    show "\<forall>n. length tws < n \<and> n \<le> length (tws @ [CHR 0x0A]) \<longrightarrow>
        ?k (st (drop n (tws @ [CHR 0x0A]) @ ac # CHR '':'' # r) (i + n) f) = None"
    proof (intro allI impI)
      fix n assume "length tws < n \<and> n \<le> length (tws @ [CHR 0x0A])"
      then have "n = Suc (length tws)" by simp
      then show "?k (st (drop n (tws @ [CHR 0x0A]) @ ac # CHR '':'' # r) (i + n) f) = None"
        using ac by (simp add: lit_i_Cons)
    qed
    show "?k (st (drop (length tws) (tws @ [CHR 0x0A]) @ ac # CHR '':'' # r) (i + length tws) f) = Some x"
      using assms(2,3) by (simp add: lit_i_Cons numeral_3_eq_3)
  qed
  then show ?thesis by (simp add: re_space_def)
qed

lemma question_tail_match:
  assumes "core \<noteq> []" "\<forall>c\<in>set core. \<not> is_line_terminator c"
    and "length core = 1 \<or> \<not> is_space (last core)"
    and "\<forall>c\<in>set tws. is_space c" "canonicalize ac = canonicalize CHR ''A''"
    and "answer_tail k (st r (i + length core + length tws + 3) (f(1 \<mapsto> core))) = Some x"
  shows "question_tail k (st (core @ tws @ CHR 0x0A # ac # CHR '':'' # r) i f) = Some x"
proof -
  let ?rest = "tws @ CHR 0x0A # ac # CHR '':'' # r"
  let ?k1 = "\<lambda>s'. marker_A (answer_tail k)
      (s'\<lparr>caps := (caps s')(1 \<mapsto> take (idx s' - i) (core @ ?rest))\<rparr>)"
  from assms(1) obtain c0 core' where core: "core = c0 # core'" by (cases core) auto
  have "matcher (Star False (Chr (\<lambda>c. \<not> is_line_terminator c))) ?k1
      (st (core' @ ?rest) (Suc i) f) = Some x"
  proof (rule lazy_run)
    show "\<forall>c\<in>set core'. \<not> is_line_terminator c" using assms(2) core by simp
    show "\<forall>n<length core'. ?k1 (st (drop n core' @ ?rest) (Suc i + n) f) = None"
    proof (intro allI impI)
      fix n assume n: "n < length core'"
      then have ne: "drop n core' \<noteq> []" by simp
      then have d: "drop n core' = butlast (drop n core') @ [last (drop n core')]"
        by (metis append_butlast_last_id)
      have l: "last (drop n core') = last core" using n core by auto
      have "set (butlast (drop n core')) \<subseteq> set core"
        using core by (meson in_set_butlastD in_set_dropD set_subset_Cons subsetI subset_trans[OF _ set_subset_Cons] subsetD)
      then have nl: "CHR 0x0A \<notin> set (butlast (drop n core'))"
        using assms(2) by (auto simp: is_line_terminator_def)
      have eq: "drop n core' @ ?rest = butlast (drop n core') @ last core # ?rest"
        using d l by (metis append_Cons append_Nil append_assoc)
      have "\<not> is_space (last core)" using assms(3) n core by auto
      then have "marker_A (answer_tail k) (st (drop n core' @ ?rest) (Suc i + n) F) = None" for F
        unfolding eq using nl by (intro marker_A_miss)
      then show "?k1 (st (drop n core' @ ?rest) (Suc i + n) f) = None"
        by simp
    qed
    show "?k1 (st ?rest (Suc i + length core') f) = Some x"
      using marker_A_hit[OF assms(4,5), of "answer_tail k" r "i + length core" "f(1 \<mapsto> core)" x]
        assms(6) core by simp
  qed
  then show ?thesis using assms(2) core
    by (simp add: matcher.simps(7) Plus_def matcher_Seq re_dot_def Chr_Cons)
qed

lemma marker_Q_match:
  assumes "canonicalize qc = canonicalize CHR ''Q''" "canonicalize ac = canonicalize CHR ''A''"
    and "\<forall>c\<in>set sp1. is_space c" "\<forall>c\<in>set tws. is_space c" "\<forall>c\<in>set sp2. is_space c"
    and "core \<noteq> []" "\<not> is_space (hd core)" "\<not> is_space (last core)"
    and "\<forall>c\<in>set core. \<not> is_line_terminator c"
    and "body \<noteq> []" "\<not> is_space (hd body)" "CHR 0x0A \<notin> set body" "block_end tail"
    and "k (st tail (i + 2 + length sp1 + length core + length tws + 3 + length sp2 + length body)
            (f(1 \<mapsto> core, 2 \<mapsto> body))) = Some x"
  shows "marker_Q k (st (qc # CHR '':'' # sp1 @ core @ tws @ CHR 0x0A # ac # CHR '':'' #
            sp2 @ body @ tail) i f) = Some x"
proof -
  let ?i1 = "i + 2 + length sp1"
  have a: "answer_tail k (st (sp2 @ body @ tail) (?i1 + length core + length tws + 3) (f(1 \<mapsto> core)))
      = Some x"
    using assms(14)
    by (intro answer_tail_match assms)
  have q: "question_tail k (st (core @ tws @ CHR 0x0A # ac # CHR '':'' # sp2 @ body @ tail) ?i1 f)
      = Some x"
    using a assms(8) by (intro question_tail_match assms) auto
  have "matcher (Star True (Chr is_space)) (question_tail k)
      (st (sp1 @ core @ tws @ CHR 0x0A # ac # CHR '':'' # sp2 @ body @ tail) (i + 2) f) = Some x"
  proof (rule greedy_run[where j = "length sp1"])
    show "\<forall>c\<in>set sp1. is_space c" by fact
    show "core @ tws @ CHR 0x0A # ac # CHR '':'' # sp2 @ body @ tail = []
        \<or> \<not> is_space (hd (core @ tws @ CHR 0x0A # ac # CHR '':'' # sp2 @ body @ tail))"
      using assms(6,7) by simp
    show "length sp1 \<le> length sp1" by simp
    show "\<forall>n. length sp1 < n \<and> n \<le> length sp1 \<longrightarrow>
        question_tail k (st (drop n sp1 @ core @ tws @ CHR 0x0A # ac # CHR '':'' # sp2 @ body @ tail)
           (i + 2 + n) f) = None" by auto
    show "question_tail k (st (drop (length sp1) sp1 @ core @ tws @ CHR 0x0A # ac # CHR '':'' #
        sp2 @ body @ tail) (i + 2 + length sp1) f) = Some x"
      using q by simp
  qed
  then show ?thesis using assms(1)
    by (simp add: lit_i_Cons re_space_def)
qed

lemma regexQA_at_start:
  assumes "\<forall>c\<in>set lead. is_space c" "canonicalize qc = canonicalize CHR ''Q''"
    and "marker_Q k (st (qc # r) (length lead) f) = Some x"
  shows "matcher regexQA k (st (lead @ qc # r) 0 f) = Some x"
proof -
  have "matcher (Star True (Chr is_space)) (marker_Q k) (st (lead @ qc # r) 0 f) = Some x"
  proof (rule greedy_run[where j = "length lead"])
    show "\<forall>c\<in>set lead. is_space c" by fact
    show "qc # r = [] \<or> \<not> is_space (hd (qc # r))" using assms(2) marker_not_space(2) by simp
    show "length lead \<le> length lead" by simp
    show "\<forall>n. length lead < n \<and> n \<le> length lead \<longrightarrow>
        marker_Q k (st (drop n lead @ qc # r) (0 + n) f) = None" by auto
    show "marker_Q k (st (drop (length lead) lead @ qc # r) (0 + length lead) f) = Some x"
      using assms(3) by simp
  qed
  then show ?thesis
    by (simp add: regexQA_unfold matcher.simps(2,5) re_space_def)
qed

lemma regexQA_at_newline:
  assumes "0 < i" "canonicalize qc = canonicalize CHR ''Q''"
    and "marker_Q k (st (qc # r) (Suc i) f) = Some x"
  shows "matcher regexQA k (st (CHR 0x0A # qc # r) i f) = Some x"
proof -
  have "\<not> is_space qc" using assms(2) by (rule marker_not_space(2))
  then have "matcher (Star True (Chr is_space)) (marker_Q k) (st (qc # r) (Suc i) f) = Some x"
    using assms(3) by (simp add: star_greedy_Cons)
  then show ?thesis using assms(1)
    by (simp add: regexQA_unfold matcher.simps(2,5) re_space_def lit_i_Cons)
qed

section \<open>Trimming\<close>

text \<open>
  A text that is not blank is its trimmed text between two runs of whitespace.
\<close>

lemma trim_blank: "blank s \<Longrightarrow> trim s = []"
proof -
  assume "blank s"
  then have d: "dropWhile is_space s = []" by (simp add: blank_def list_all_iff)
  show ?thesis unfolding trim_def d by simp
qed

lemma trim_parts:
  assumes "\<not> blank s"
  shows "\<exists>l r. s = l @ trim s @ r \<and> (\<forall>c\<in>set l. is_space c) \<and> (\<forall>c\<in>set r. is_space c)
     \<and> trim s \<noteq> [] \<and> \<not> is_space (hd (trim s)) \<and> \<not> is_space (last (trim s))"
proof -
  let ?m = "dropWhile is_space s"
  let ?l = "takeWhile is_space s"
  let ?r = "rev (takeWhile is_space (rev ?m))"
  have m: "?m \<noteq> []" using assms by (auto simp: blank_def list_all_iff)
  then have hm: "\<not> is_space (hd ?m)" by (rule hd_dropWhile)
  have t: "trim s = rev (dropWhile is_space (rev ?m))" by (simp add: trim_def)
  have "rev ?m = takeWhile is_space (rev ?m) @ dropWhile is_space (rev ?m)" by simp
  then have "rev (rev ?m) = rev (takeWhile is_space (rev ?m) @ dropWhile is_space (rev ?m))"
    by simp
  then have split: "?m = trim s @ ?r" unfolding t by (simp only: rev_rev_ident rev_append)
  have d: "dropWhile is_space (rev ?m) \<noteq> []"
  proof
    assume "dropWhile is_space (rev ?m) = []"
    then have "\<forall>c\<in>set (rev ?m). is_space c" by (simp add: dropWhile_eq_Nil_conv)
    then have "is_space (hd ?m)" using m by simp
    with hm show False by simp
  qed
  then have ne: "trim s \<noteq> []" by (simp add: t)
  have "\<not> is_space (hd (dropWhile is_space (rev ?m)))" using d by (rule hd_dropWhile)
  then have la: "\<not> is_space (last (trim s))" using d by (simp add: t last_rev)
  have "hd ?m = hd (trim s)" using split ne by (metis hd_append2)
  with hm have h: "\<not> is_space (hd (trim s))" by simp
  have r: "\<forall>c\<in>set ?r. is_space c" by (auto dest: set_takeWhileD)
  have l: "\<forall>c\<in>set ?l. is_space c" by (auto dest: set_takeWhileD)
  have "s = ?l @ ?m" by simp
  then have "s = ?l @ trim s @ ?r" using split by simp
  with l r ne h la show ?thesis by blast
qed

lemma trim_core:
  assumes "core \<noteq> []" "\<not> is_space (hd core)" "\<not> is_space (last core)" "\<forall>c\<in>set r. is_space c"
  shows "trim (core @ r) = core"
proof -
  have a: "dropWhile is_space (core @ r) = core @ r"
    using assms(1,2) by (cases core) auto
  have "dropWhile is_space (rev r @ rev core) = dropWhile is_space (rev core)"
    using assms(4) by (simp add: dropWhile_append)
  also have "\<dots> = rev core"
    using assms(1,3) by (cases "rev core") (auto simp: hd_rev[symmetric] dest: arg_cong[where f = hd])
  finally show ?thesis by (simp add: trim_def a)
qed

section \<open>One block\<close>

text \<open>
  The match of one block \<open>Q: question\<close>, newline, \<open>A: answer\<close>. When the question is blank,
  the whitespace after the marker runs over the newline, the match backtracks, and the
  question group takes the last character of the whitespace.
\<close>

lemma single_line_no_newline: "single_line s \<Longrightarrow> CHR 0x0A \<notin> set s"
  by (auto simp: single_line_def list_all_iff is_line_terminator_def)

lemma parts_facts:
  assumes "s = l @ t @ r"
  shows "length s = length l + length t + length r" "set t \<subseteq> set s" "set (t @ r) \<subseteq> set s"
    "x @ s @ y = x @ l @ t @ r @ y"
  using assms by auto

lemma block_match_nonblank:
  assumes "single_line q" "\<not> blank q" "single_line a" "\<not> blank a"
    and "canonicalize qc = canonicalize CHR ''Q''" "canonicalize ac = canonicalize CHR ''A''"
    and "block_end tail"
  shows "\<exists>g1 g2. marker_Q Some
            (st (qc # CHR '':'' # CHR '' '' # q @ CHR 0x0A # ac # CHR '':'' # CHR '' '' # a @ tail) i f)
          = Some (st tail (i + 7 + length q + length a) (f(1 \<mapsto> g1, 2 \<mapsto> g2)))
      \<and> trim g1 = trim q \<and> trim g2 = trim a"
proof -
  from trim_parts[OF assms(2)] obtain lq rq where
    q: "q = lq @ trim q @ rq" "\<forall>c\<in>set lq. is_space c" "\<forall>c\<in>set rq. is_space c"
    "trim q \<noteq> []" "\<not> is_space (hd (trim q))" "\<not> is_space (last (trim q))"
    by blast
  from trim_parts[OF assms(4)] obtain la ra where
    a: "a = la @ trim a @ ra" "\<forall>c\<in>set la. is_space c" "\<forall>c\<in>set ra. is_space c"
    "trim a \<noteq> []" "\<not> is_space (hd (trim a))" "\<not> is_space (last (trim a))"
    by blast
  define core where "core = trim q"
  define body where "body = trim a @ ra"
  have lenq: "length q = length lq + length core + length rq"
    unfolding core_def by (rule parts_facts(1)[OF q(1)])
  have lena: "length a = length la + length body"
    unfolding body_def using parts_facts(1)[OF a(1)] by simp
  have setq: "set core \<subseteq> set q" unfolding core_def by (rule parts_facts(2)[OF q(1)])
  have seta: "set body \<subseteq> set a" unfolding body_def by (rule parts_facts(3)[OF a(1)])
  have "(qc # CHR '':'' # [CHR '' '']) @ q @ (CHR 0x0A # ac # CHR '':'' # CHR '' '' # a @ tail)
      = (qc # CHR '':'' # [CHR '' '']) @ lq @ trim q @ rq @ (CHR 0x0A # ac # CHR '':'' # CHR '' '' # a @ tail)"
    by (rule parts_facts(4)[OF q(1)])
  moreover have "(CHR 0x0A # ac # CHR '':'' # [CHR '' '']) @ a @ tail
      = (CHR 0x0A # ac # CHR '':'' # [CHR '' '']) @ la @ trim a @ ra @ tail"
    by (rule parts_facts(4)[OF a(1)])
  ultimately have shape:
    "qc # CHR '':'' # CHR '' '' # q @ CHR 0x0A # ac # CHR '':'' # CHR '' '' # a @ tail
      = qc # CHR '':'' # (CHR '' '' # lq) @ core @ rq @ CHR 0x0A # ac # CHR '':'' #
          (CHR '' '' # la) @ body @ tail"
    unfolding core_def body_def by simp
  have "marker_Q Some
      (st (qc # CHR '':'' # (CHR '' '' # lq) @ core @ rq @ CHR 0x0A # ac # CHR '':'' #
          (CHR '' '' # la) @ body @ tail) i f)
      = Some (st tail (i + 2 + length (CHR '' '' # lq) + length core + length rq + 3
          + length (CHR '' '' # la) + length body) (f(1 \<mapsto> core, 2 \<mapsto> body)))"
  proof (rule marker_Q_match)
    show "canonicalize qc = canonicalize CHR ''Q''" "canonicalize ac = canonicalize CHR ''A''"
      by fact+
    show "\<forall>c\<in>set (CHR '' '' # lq). is_space c" using q(2) by (simp add: is_space_def)
    show "\<forall>c\<in>set rq. is_space c" by fact
    show "\<forall>c\<in>set (CHR '' '' # la). is_space c" using a(2) by (simp add: is_space_def)
    show "core \<noteq> []" "\<not> is_space (hd core)" "\<not> is_space (last core)"
      using q(4,5,6) by (simp_all add: core_def)
    show "\<forall>c\<in>set core. \<not> is_line_terminator c"
      using setq assms(1) by (auto simp: single_line_def list_all_iff)
    show "body \<noteq> []" "\<not> is_space (hd body)" using a(4,5) by (simp_all add: body_def)
    show "CHR 0x0A \<notin> set body" using seta single_line_no_newline[OF assms(3)] by auto
    show "block_end tail" by fact
  qed simp
  moreover have "i + 2 + length (CHR '' '' # lq) + length core + length rq + 3
          + length (CHR '' '' # la) + length body = i + 7 + length q + length a"
    using lenq lena by simp
  moreover have "trim core = trim q"
    unfolding core_def using trim_core[OF q(4,5,6), of "[]"] by simp
  moreover have "trim body = trim a"
    unfolding body_def using trim_core[OF a(4,5,6) a(3)] by simp
  ultimately show ?thesis unfolding shape by auto
qed

lemma block_end_cases:
  assumes "block_end tail"
  obtains "tail = []"
  | y r where "tail = CHR 0x0A # y # CHR '':'' # r" "canonicalize y = canonicalize CHR ''Q''"
  using assms by (cases tail rule: block_end.cases) auto

lemma marker_A_fails_line:
  assumes "CHR 0x0A \<notin> set xs" "block_end tail"
  shows "marker_A k (st (xs @ tail) i f) = None"
  using assms(1)
proof (induction xs arbitrary: i)
  case Nil
  from assms(2) show ?case
  proof (cases rule: block_end_cases)
    case 1
    then show ?thesis by (simp add: re_space_def star_greedy_Nil lit_i_Nil)
  next
    case (2 y r)
    have "\<not> is_space y" "y \<noteq> CHR 0x0A" "canonicalize y \<noteq> canonicalize CHR ''A''"
      using 2(2) marker_not_space(2) newline_is_space canonicalize_A[of "CHR ''Q''"]
      by auto
    then show ?thesis using 2(1)
      by (simp add: re_space_def star_greedy_Cons lit_i_Cons newline_is_space)
  qed
next
  case (Cons y ys)
  then have "marker_A k (st (ys @ tail) (Suc i) f) = None" by simp
  moreover have "y \<noteq> CHR 0x0A" using Cons.prems by auto
  ultimately show ?case
    by (simp add: re_space_def star_greedy_Cons lit_i_Cons)
qed

lemma question_tail_fails_line:
  assumes "\<forall>c\<in>set xs. \<not> is_line_terminator c" "block_end tail"
  shows "question_tail k (st (xs @ tail) i f) = None"
proof (cases xs)
  case Nil
  from assms(2) show ?thesis
  proof (cases rule: block_end_cases)
    case 1
    with Nil show ?thesis by (simp add: matcher.simps(7) Plus_def matcher_Seq re_dot_def Chr_Nil)
  next
    case (2 y r)
    with Nil show ?thesis
      by (simp add: matcher.simps(7) Plus_def matcher_Seq re_dot_def Chr_Cons is_line_terminator_def)
  qed
next
  case (Cons c0 xs')
  let ?k1 = "\<lambda>s'. marker_A (answer_tail k)
      (s'\<lparr>caps := (caps s')(1 \<mapsto> take (idx s' - i) (xs @ tail))\<rparr>)"
  have "matcher (Star False (Chr (\<lambda>c. \<not> is_line_terminator c))) ?k1
      (st (xs' @ tail) (Suc i) f) = None"
  proof (rule lazy_run_fails)
    show "\<forall>c\<in>set xs'. \<not> is_line_terminator c" using assms(1) Cons by simp
    show "tail = [] \<or> \<not> \<not> is_line_terminator (hd tail)"
      using assms(2) by (cases rule: block_end_cases) (auto simp: is_line_terminator_def)
    show "\<forall>n\<le>length xs'. ?k1 (st (drop n xs' @ tail) (Suc i + n) f) = None"
    proof (intro allI impI)
      fix n
      have "set (drop n xs') \<subseteq> set xs" using Cons by (auto dest: in_set_dropD)
      then have "CHR 0x0A \<notin> set (drop n xs')"
        using assms(1) by (auto simp: is_line_terminator_def)
      then have "marker_A (answer_tail k) (st (drop n xs' @ tail) (Suc i + n) F) = None" for F
        using assms(2) by (rule marker_A_fails_line)
      then show "?k1 (st (drop n xs' @ tail) (Suc i + n) f) = None" by simp
    qed
  qed
  then show ?thesis using assms(1) Cons
    by (simp add: matcher.simps(7) Plus_def matcher_Seq re_dot_def Chr_Cons)
qed

lemma question_tail_newline:
  "question_tail k (st (CHR 0x0A # r) i f) = None"
  by (simp add: matcher.simps(7) Plus_def matcher_Seq re_dot_def Chr_Cons is_line_terminator_def)

lemma marker_Q_match_blank:
  assumes "canonicalize qc = canonicalize CHR ''Q''" "canonicalize ac = canonicalize CHR ''A''"
    and "\<forall>c\<in>set sp. is_space c" "\<not> is_line_terminator c" "is_space c"
    and "\<forall>c\<in>set sp2. is_space c"
    and "body \<noteq> []" "\<not> is_space (hd body)"
    and "\<forall>c\<in>set (sp2 @ body). \<not> is_line_terminator c" "block_end tail"
    and "k (st tail (i + 2 + length sp + 1 + 3 + length sp2 + length body)
            (f(1 \<mapsto> [c], 2 \<mapsto> body))) = Some x"
  shows "marker_Q k (st (qc # CHR '':'' # sp @ c # CHR 0x0A # ac # CHR '':'' #
            sp2 @ body @ tail) i f) = Some x"
proof -
  let ?line = "ac # CHR '':'' # sp2 @ body"
  have nl: "CHR 0x0A \<notin> set body" using assms(9) by (auto simp: is_line_terminator_def)
  have ac: "\<not> is_space ac" "\<not> is_line_terminator ac"
    using assms(2) by (auto simp: canonicalize_A is_space_def is_line_terminator_def)
  have a: "answer_tail k (st (sp2 @ body @ tail) (i + 2 + length sp + length [c] + length ([]::string) + 3)
      (f(1 \<mapsto> [c]))) = Some x"
    using assms(11) nl by (intro answer_tail_match assms) simp_all
  have hit: "question_tail k (st ([c] @ [] @ CHR 0x0A # ac # CHR '':'' # sp2 @ body @ tail)
      (i + 2 + length sp) f) = Some x"
    using a assms(4) by (intro question_tail_match assms) auto
  have "matcher (Star True (Chr is_space)) (question_tail k)
      (st ((sp @ [c, CHR 0x0A]) @ ?line @ tail) (i + 2) f) = Some x"
  proof (rule greedy_run[where j = "length sp"])
    show "\<forall>x\<in>set (sp @ [c, CHR 0x0A]). is_space x"
      using assms(3,5) newline_is_space by auto
    show "?line @ tail = [] \<or> \<not> is_space (hd (?line @ tail))" using ac by simp
    show "length sp \<le> length (sp @ [c, CHR 0x0A])" by simp
    show "\<forall>n. length sp < n \<and> n \<le> length (sp @ [c, CHR 0x0A]) \<longrightarrow>
        question_tail k (st (drop n (sp @ [c, CHR 0x0A]) @ ?line @ tail) (i + 2 + n) f) = None"
    proof (intro allI impI)
      fix n assume "length sp < n \<and> n \<le> length (sp @ [c, CHR 0x0A])"
      then consider "n = Suc (length sp)" | "n = Suc (Suc (length sp))" by fastforce
      then show "question_tail k (st (drop n (sp @ [c, CHR 0x0A]) @ ?line @ tail) (i + 2 + n) f) = None"
      proof cases
        case 1
        have "question_tail k (st (CHR 0x0A # ?line @ tail) (i + 2 + n) f) = None"
          by (rule question_tail_newline)
        with 1 show ?thesis by simp
      next
        case 2
        have "question_tail k (st (?line @ tail) (i + 2 + n) f) = None"
          using assms(9,10) ac by (intro question_tail_fails_line) (auto simp: is_line_terminator_def)
        with 2 show ?thesis by simp
      qed
    qed
    show "question_tail k (st (drop (length sp) (sp @ [c, CHR 0x0A]) @ ?line @ tail)
        (i + 2 + length sp) f) = Some x"
      using hit by simp
  qed
  then show ?thesis using assms(1)
    by (simp add: lit_i_Cons re_space_def)
qed

lemma block_match_blank:
  assumes "single_line q" "blank q" "single_line a" "\<not> blank a"
    and "canonicalize qc = canonicalize CHR ''Q''" "canonicalize ac = canonicalize CHR ''A''"
    and "block_end tail"
  shows "\<exists>g1 g2. marker_Q Some
            (st (qc # CHR '':'' # CHR '' '' # q @ CHR 0x0A # ac # CHR '':'' # CHR '' '' # a @ tail) i f)
          = Some (st tail (i + 7 + length q + length a) (f(1 \<mapsto> g1, 2 \<mapsto> g2)))
      \<and> trim g1 = trim q \<and> trim g2 = trim a"
proof -
  from trim_parts[OF assms(4)] obtain la ra where
    a: "a = la @ trim a @ ra" "\<forall>c\<in>set la. is_space c" "\<forall>c\<in>set ra. is_space c"
    "trim a \<noteq> []" "\<not> is_space (hd (trim a))" "\<not> is_space (last (trim a))"
    by blast
  define body where "body = trim a @ ra"
  define sp where "sp = butlast (CHR '' '' # q)"
  define c where "c = last (CHR '' '' # q)"
  have spc: "CHR '' '' # q = sp @ [c]" unfolding sp_def c_def by simp
  have qs: "\<forall>x\<in>set (CHR '' '' # q). is_space x \<and> \<not> is_line_terminator x"
    using assms(1,2)
    by (auto simp: blank_def single_line_def list_all_iff is_space_def is_line_terminator_def)
  have c: "is_space c" "\<not> is_line_terminator c" and sp: "\<forall>x\<in>set sp. is_space x"
    using qs unfolding spc by auto
  have lensp: "Suc (length q) = Suc (length sp)" using arg_cong[OF spc, of length] by simp
  have lena: "length a = length la + length body"
    unfolding body_def using parts_facts(1)[OF a(1)] by simp
  have seta: "set (la @ body) \<subseteq> set a" unfolding body_def using a(1) by (metis order_refl)
  have "(CHR 0x0A # ac # CHR '':'' # [CHR '' '']) @ a @ tail
      = (CHR 0x0A # ac # CHR '':'' # [CHR '' '']) @ la @ trim a @ ra @ tail"
    by (rule parts_facts(4)[OF a(1)])
  moreover have "qc # CHR '':'' # (CHR '' '' # q) @ r = qc # CHR '':'' # sp @ c # r" for r
    unfolding spc by simp
  ultimately have shape:
    "qc # CHR '':'' # CHR '' '' # q @ CHR 0x0A # ac # CHR '':'' # CHR '' '' # a @ tail
      = qc # CHR '':'' # sp @ c # CHR 0x0A # ac # CHR '':'' # (CHR '' '' # la) @ body @ tail"
    unfolding body_def by simp
  have "marker_Q Some
      (st (qc # CHR '':'' # sp @ c # CHR 0x0A # ac # CHR '':'' # (CHR '' '' # la) @ body @ tail) i f)
      = Some (st tail (i + 2 + length sp + 1 + 3 + length (CHR '' '' # la) + length body)
          (f(1 \<mapsto> [c], 2 \<mapsto> body)))"
  proof (rule marker_Q_match_blank)
    show "canonicalize qc = canonicalize CHR ''Q''" "canonicalize ac = canonicalize CHR ''A''"
      by fact+
    show "\<forall>c\<in>set sp. is_space c" "\<not> is_line_terminator c" "is_space c" using sp c by auto
    show "\<forall>c\<in>set (CHR '' '' # la). is_space c" using a(2) by (simp add: is_space_def)
    show "body \<noteq> []" "\<not> is_space (hd body)" using a(4,5) by (simp_all add: body_def)
    show "\<forall>c\<in>set ((CHR '' '' # la) @ body). \<not> is_line_terminator c"
      using seta assms(3) by (auto simp: single_line_def list_all_iff is_line_terminator_def)
    show "block_end tail" by fact
  qed simp
  moreover have "i + 2 + length sp + 1 + 3 + length (CHR '' '' # la) + length body
      = i + 7 + length q + length a"
    using lensp lena by simp
  moreover have "trim [c] = trim q"
    using trim_blank[OF assms(2)] trim_blank[of "[c]"] c(1) by (simp add: blank_def)
  moreover have "trim body = trim a"
    unfolding body_def using trim_core[OF a(4,5,6) a(3)] by simp
  ultimately show ?thesis unfolding shape by auto
qed

lemma block_match:
  assumes "single_line q" "single_line a" "\<not> blank a"
    and "canonicalize qc = canonicalize CHR ''Q''" "canonicalize ac = canonicalize CHR ''A''"
    and "block_end tail"
  shows "\<exists>g1 g2. marker_Q Some
            (st (qc # CHR '':'' # CHR '' '' # q @ CHR 0x0A # ac # CHR '':'' # CHR '' '' # a @ tail) i f)
          = Some (st tail (i + 7 + length q + length a) (f(1 \<mapsto> g1, 2 \<mapsto> g2)))
      \<and> trim g1 = trim q \<and> trim g2 = trim a"
  using assms block_match_blank block_match_nonblank by (cases "blank q") blast+

section \<open>The structured strategy on built documents\<close>

text \<open>
  The loop of \<open>parseStructuredQA\<close> takes the blocks of a built document one by one: each
  match ends before the newline that starts the next block, or at the end of the text.
\<close>

lemma exec_from_first:
  "matcher r Some (st cs i (\<lambda>_. None)) = Some x \<Longrightarrow> exec_from r cs i = Some x"
  by (simp add: exec_from.simps)

lemma exec_loop_end:
  assumes "drop i doc = []"
  shows "exec_loop doc i = Inr []"
proof -
  have "exec_from regexQA [] i = None"
    using exec_from_needs_marker[of "[]" i] by (cases "exec_from regexQA [] i") auto
  then show ?thesis using assms by (simp add: exec_loop.simps[of doc i])
qed

lemma build_doc_Cons:
  "build_doc ((q, a) # bs)
     = CHR ''Q'' # CHR '':'' # CHR '' '' # q @ CHR 0x0A # CHR ''A'' # CHR '':'' # CHR '' '' # a @
         (if bs = [] then [] else CHR 0x0A # build_doc bs)"
  by (cases bs) auto

lemma block_end_build_doc: "block_end (if bs = [] then [] else CHR 0x0A # build_doc bs)"
proof (cases bs)
  case Nil
  then show ?thesis by simp
next
  case (Cons b bs')
  then show ?thesis by (cases b) (simp add: build_doc_Cons del: build_doc.simps)
qed

lemma exec_loop_step:
  assumes m: "matcher regexQA Some (st (drop i doc) i (\<lambda>_. None)) = Some (st tail e ((\<lambda>_. None)(1 \<mapsto> g1, 2 \<mapsto> g2)))"
    and "i < e" "i < length doc" "exec_loop doc e = Inr es"
  shows "exec_loop doc i = Inr (mk_entry (trim g1) (trim g2) # es)"
  using assms(2,3,4) exec_from_first[OF m]
  by (simp add: exec_loop.simps[of doc i])

lemma exec_loop_blocks:
  assumes "\<forall>(q, a)\<in>set bs. single_line q \<and> single_line a \<and> \<not> blank a" "bs \<noteq> []"
    and "drop i doc = pre @ build_doc bs" "(i = 0 \<and> pre = []) \<or> (0 < i \<and> pre = [CHR 0x0A])"
  shows "exec_loop doc i = Inr (map (\<lambda>(q, a). mk_entry (trim q) (trim a)) bs)"
  using assms
proof (induction bs arbitrary: i pre)
  case Nil
  then show ?case by simp
next
  case (Cons b bs)
  obtain q a where b: "b = (q, a)" by (cases b)
  from Cons.prems(1) b have ok: "single_line q" "single_line a" "\<not> blank a" by auto
  define tail where "tail = (if bs = [] then [] else CHR 0x0A # build_doc bs)"
  define e where "e = i + length pre + 7 + length q + length a"
  have be: "block_end tail" unfolding tail_def by (rule block_end_build_doc)
  have doc: "drop i doc = pre @ CHR ''Q'' # CHR '':'' # CHR '' '' # q @ CHR 0x0A # CHR ''A'' # CHR '':'' #
      CHR '' '' # a @ tail"
    using Cons.prems(3) b by (simp only: build_doc_Cons tail_def)
  from block_match[OF ok refl refl be, where i = "i + length pre" and f = "\<lambda>_. None"]
  obtain g1 g2 where g: "marker_Q Some
        (st (CHR ''Q'' # CHR '':'' # CHR '' '' # q @ CHR 0x0A # CHR ''A'' # CHR '':'' # CHR '' '' # a @ tail)
           (i + length pre) (\<lambda>_. None))
      = Some (st tail e ((\<lambda>_. None)(1 \<mapsto> g1, 2 \<mapsto> g2)))"
    "trim g1 = trim q" "trim g2 = trim a"
    unfolding e_def by (auto simp: add.assoc)
  let ?R = "CHR '':'' # CHR '' '' # q @ CHR 0x0A # CHR ''A'' # CHR '':'' # CHR '' '' # a @ tail"
  let ?X = "st tail e ((\<lambda>_. None)(1 \<mapsto> g1, 2 \<mapsto> g2))"
  have m: "matcher regexQA Some (st (drop i doc) i (\<lambda>_. None)) = Some ?X"
  proof (cases "i = 0")
    case True
    with Cons.prems(4) have pre: "pre = []" by auto
    have "matcher regexQA Some (st ([] @ CHR ''Q'' # ?R) 0 (\<lambda>_. None)) = Some ?X"
    proof (rule regexQA_at_start)
      show "marker_Q Some (st (CHR ''Q'' # ?R) (length ([]::string)) (\<lambda>_. None)) = Some ?X"
        using g(1) pre True by simp
    qed simp_all
    then show ?thesis using doc pre True by simp
  next
    case False
    with Cons.prems(4) have pre: "pre = [CHR 0x0A]" by auto
    have "matcher regexQA Some (st (CHR 0x0A # CHR ''Q'' # ?R) i (\<lambda>_. None)) = Some ?X"
    proof (rule regexQA_at_newline)
      show "marker_Q Some (st (CHR ''Q'' # ?R) (Suc i) (\<lambda>_. None)) = Some ?X"
        using g(1) pre by simp
    qed (use False in simp_all)
    then show ?thesis using doc pre by simp
  qed
  have len: "length (drop i doc) = length pre + 7 + length q + length a + length tail"
    unfolding doc by simp
  then have i: "i < length doc" "i < e" unfolding e_def by auto
  have "e = length pre + 7 + length q + length a + i" unfolding e_def by simp
  then have "drop e doc = drop (length pre + 7 + length q + length a) (drop i doc)"
    by (simp only: drop_drop)
  also have "\<dots> = tail"
  proof -
    define X where "X = pre @ CHR ''Q'' # CHR '':'' # CHR '' '' # q @ CHR 0x0A # CHR ''A'' # CHR '':'' #
      CHR '' '' # a"
    have dx: "drop i doc = X @ tail" unfolding X_def doc by simp
    have lx: "length pre + 7 + length q + length a = length X" unfolding X_def by simp
    show ?thesis unfolding dx lx by simp
  qed
  finally have de: "drop e doc = tail" .
  have "exec_loop doc e = Inr (map (\<lambda>(q, a). mk_entry (trim q) (trim a)) bs)"
  proof (cases "bs = []")
    case True
    then show ?thesis using de exec_loop_end[of e doc] by (simp add: tail_def)
  next
    case False
    have "drop e doc = [CHR 0x0A] @ build_doc bs" using de False by (simp add: tail_def)
    moreover have "(e = 0 \<and> [CHR 0x0A] = []) \<or> (0 < e \<and> [CHR 0x0A] = [CHR 0x0A])"
      using i(2) by simp
    moreover have "\<forall>(q, a)\<in>set bs. single_line q \<and> single_line a \<and> \<not> blank a"
      using Cons.prems(1) by simp
    ultimately show ?thesis using False by (intro Cons.IH)
  qed
  from exec_loop_step[OF m i(2,1) this] show ?case using g(2,3) b by simp
qed

text \<open>
  Claim C6. The claim gives N entries for N blocks of non-empty single-line questions
  and answers. The source comment promises an answer that runs up to the next \<open>Q:\<close> or the
  end of the text. An answer of one space is not empty, yet the whitespace after its
  marker runs over the newline, the lookahead no longer finds the newline before the next
  \<open>Q:\<close>, and the answer runs on to the end of the text: the two blocks give one entry,
  whose body is the second block, and the second question is lost. The text is as
  \<open>loadPdfKnowledge\<close> hands it over, which returns that one entry.
\<close>

theorem blank_answer_swallows_next_block:
  "build_doc [(''x'', '' ''), (''y'', ''z'')] = ''Q: x\<newline>A:  \<newline>Q: y\<newline>A: z''
   \<and> parseStructuredQA (build_doc [(''x'', '' ''), (''y'', ''z'')])
     = Inr [\<lparr>entry_q = ''x'', entry_a = ''Q: y\<newline>A: z'', entry_patterns = [''x'']\<rparr>]
   \<and> loadPdfKnowledge (Extracted (build_doc [(''x'', '' ''), (''y'', ''z'')]))
     = Inr [\<lparr>entry_q = ''x'', entry_a = ''Q: y\<newline>A: z'', entry_patterns = [''x'']\<rparr>]"
  by code_simp

text \<open>
  Where every answer has a character that is not whitespace, the round trip holds: for
  every sequence of single-line questions and such single-line answers,
  \<open>parseStructuredQA\<close> of the built document returns one entry per block, in order, with
  the trimmed question as label and the trimmed answer as body.
\<close>

lemma structured_roundtrip:
  assumes "\<forall>(q, a)\<in>set blocks. single_line q \<and> single_line a \<and> \<not> blank a"
  shows "parseStructuredQA (build_doc blocks)
     = Inr (map (\<lambda>(q, a). mk_entry (trim q) (trim a)) blocks)"
proof (cases "blocks = []")
  case True
  then show ?thesis using exec_loop_end[of 0 "[]"] by (simp add: parseStructuredQA_def)
next
  case False
  have "exec_loop (build_doc blocks) 0 = Inr (map (\<lambda>(q, a). mk_entry (trim q) (trim a)) blocks)"
    using assms False by (rule exec_loop_blocks[where pre = "[]"]) simp_all
  then show ?thesis by (simp add: parseStructuredQA_def)
qed

lemma structured_roundtrip_example:
  "single_line ''What is a CAB?'' \<and> single_line ''A Change Advisory Board reviews RFCs. ''
   \<and> \<not> blank ''A Change Advisory Board reviews RFCs. ''
   \<and> single_line '' '' \<and> single_line ''Minimum notice.'' \<and> \<not> blank ''Minimum notice.''
   \<and> parseStructuredQA
         ''Q: What is a CAB?\<newline>A: A Change Advisory Board reviews RFCs. \<newline>Q:  \<newline>A: Minimum notice.''
       = Inr [mk_entry ''What is a CAB?'' ''A Change Advisory Board reviews RFCs.'',
              mk_entry [] ''Minimum notice.'']"
proof -
  let ?blocks = "[(''What is a CAB?'', ''A Change Advisory Board reviews RFCs. ''),
                  ('' '', ''Minimum notice.'')]"
  have h: "single_line ''What is a CAB?''" "single_line ''A Change Advisory Board reviews RFCs. ''"
    "\<not> blank ''A Change Advisory Board reviews RFCs. ''"
    "single_line '' ''" "single_line ''Minimum notice.''" "\<not> blank ''Minimum notice.''"
    by code_simp+
  then have "\<forall>(q, a)\<in>set ?blocks. single_line q \<and> single_line a \<and> \<not> blank a" by simp
  from structured_roundtrip[OF this]
  have "parseStructuredQA (build_doc ?blocks)
      = Inr (map (\<lambda>(q, a). mk_entry (trim q) (trim a)) ?blocks)" .
  moreover have "trim ''What is a CAB?'' = ''What is a CAB?''"
    "trim ''A Change Advisory Board reviews RFCs. '' = ''A Change Advisory Board reviews RFCs.''"
    "trim '' '' = []" "trim ''Minimum notice.'' = ''Minimum notice.''"
    by code_simp+
  ultimately show ?thesis using h by simp
qed

text \<open>
  Claim C3. The claim lets both markers follow whitespace on their lines. The expression
  allows whitespace between the newline and \<open>Q:\<close>, but takes \<open>A:\<close> right after the newline
  only. After a line of preamble, a block with a space before each marker is not found,
  and \<open>loadPdfKnowledge\<close> falls back to one paragraph entry; with the space before the
  question marker only, the block is found. The lookahead that ends an answer has the
  same gap: a later question marker after a space does not end the answer before it.
\<close>

theorem indented_answer_marker_is_missed:
  "parseStructuredQA ''Intro\<newline> Q: foo\<newline> A: bar'' = Inr []
   \<and> loadPdfKnowledge (Extracted ''Intro\<newline> Q: foo\<newline> A: bar'')
     = Inr [\<lparr>entry_q = ''Intro\<newline> Q: foo\<newline> A: bar'',
              entry_a = ''Intro\<newline> Q: foo\<newline> A: bar'',
              entry_patterns = [''Intro\<newline> Q: foo\<newline> A: bar'', ''intro'']\<rparr>]
   \<and> parseStructuredQA ''Intro\<newline> Q: foo\<newline>A: bar''
     = Inr [\<lparr>entry_q = ''foo'', entry_a = ''bar'', entry_patterns = [''foo'']\<rparr>]
   \<and> parseStructuredQA ''Q: foo\<newline> A: bar'' = Inr []
   \<and> parseStructuredQA ''Q: a\<newline>A: b\<newline> Q: c\<newline>A: d''
     = Inr [\<lparr>entry_q = ''a'', entry_a = ''b\<newline> Q: c\<newline>A: d'', entry_patterns = [''a'']\<rparr>]"
  by code_simp

text \<open>
  What the expression does accept: the markers in either case, and whitespace before the
  question marker at the beginning of a text, for every single-line question and every
  single-line answer that is not blank.
\<close>

lemma question_marker_tolerates_leading_space:
  assumes "list_all is_space lead"
    and "qc = CHR ''Q'' \<or> qc = CHR ''q''" "ac = CHR ''A'' \<or> ac = CHR ''a''"
    and "single_line q" "single_line a" "\<not> blank a"
  shows "parseStructuredQA (lead @ qc # '': '' @ q @ CHR 0x0A # ac # '': '' @ a)
     = Inr [mk_entry (trim q) (trim a)]"
proof -
  let ?R = "CHR '':'' # CHR '' '' # q @ CHR 0x0A # ac # CHR '':'' # CHR '' '' # a @ []"
  let ?doc = "lead @ qc # '': '' @ q @ CHR 0x0A # ac # '': '' @ a"
  have qc: "canonicalize qc = canonicalize CHR ''Q''" using assms(2) by (simp add: canonicalize_Q)
  have ac: "canonicalize ac = canonicalize CHR ''A''" using assms(3) by (simp add: canonicalize_A)
  have be: "block_end []" by simp
  from block_match[OF assms(4,5,6) qc ac be, where i = "length lead" and f = "\<lambda>_. None"]
  obtain g1 g2 where g: "marker_Q Some (st (qc # ?R) (length lead) (\<lambda>_. None))
      = Some (st [] (length lead + 7 + length q + length a) ((\<lambda>_. None)(1 \<mapsto> g1, 2 \<mapsto> g2)))"
    "trim g1 = trim q" "trim g2 = trim a"
    by blast
  have "matcher regexQA Some (st (lead @ qc # ?R) 0 (\<lambda>_. None))
      = Some (st [] (length lead + 7 + length q + length a) ((\<lambda>_. None)(1 \<mapsto> g1, 2 \<mapsto> g2)))"
    using assms(1) qc g(1) by (intro regexQA_at_start) (simp_all add: list_all_iff)
  then have m: "matcher regexQA Some (st (drop 0 ?doc) 0 (\<lambda>_. None))
      = Some (st [] (length lead + 7 + length q + length a) ((\<lambda>_. None)(1 \<mapsto> g1, 2 \<mapsto> g2)))"
    by simp
  have len: "length ?doc = length lead + 7 + length q + length a" by simp
  have "exec_loop ?doc (length lead + 7 + length q + length a) = Inr []"
    by (rule exec_loop_end) (simp only: len[symmetric] drop_all order_refl)
  from exec_loop_step[OF m _ _ this] g(2,3) show ?thesis
    by (simp add: parseStructuredQA_def)
qed

lemma question_marker_tolerates_leading_space_example:
  "list_all is_space [CHR 0x09, CHR '' ''] \<and> single_line ''x '' \<and> single_line ''  y'' \<and> \<not> blank ''  y''
   \<and> parseStructuredQA ([CHR 0x09, CHR '' ''] @ ''q: x \<newline>a:   y'') = Inr [mk_entry ''x'' ''y'']"
proof -
  have h: "list_all is_space [CHR 0x09, CHR '' '']" "single_line ''x ''" "single_line ''  y''"
    "\<not> blank ''  y''"
    by code_simp+
  have t: "trim ''x '' = ''x''" "trim ''  y'' = ''y''" by code_simp+
  from question_marker_tolerates_leading_space[OF h(1) _ _ h(2,3,4), of "CHR ''q''" "CHR ''a''"] t h
  show ?thesis by simp
qed

end
